theory Spec2Isabelle
  imports Main "HOL-Library.Word" "HOL-Library.Monad_Syntax"
begin

unbundle bit_operations_syntax

section \<open>The I2C\_24LC1025 EEPROM driver\<close>

text \<open>
  The driver of \<^verbatim>\<open>src/libraries/I2C_24LC1025/I2C_24LC1025.cpp\<close>. The object's
  fields and the world it talks to (the two-wire bus, the microsecond clock) are one
  record that every function takes and returns. The bus and the clock are outside the
  repository: what they answer is read from three streams held in the record
  (\<open>clock\<close>, \<open>acks\<close>, \<open>rx\<close>), each with the count of answers already consumed, so
  that every theorem holds for every behaviour of the device and of the clock. A polling
  loop that the bus and the clock may keep alive for ever is a partial function in the
  option monad: not returning is the value \<open>None\<close>. The private functions keep their
  names without the leading underscore (\<^verbatim>\<open>_pageBlock\<close> is \<open>pageBlock\<close>); the calls of the
  \<^verbatim>\<open>TwoWire\<close> object are prefixed \<open>wire_\<close>. \<^verbatim>\<open>yield()\<close> has no effect on the object or
  on the bus and is left out.
\<close>

subsection \<open>Platform constants\<close>

datatype platform = ESP | AVR_STM

text \<open>\<^verbatim>\<open>#define I2C_BUFFERSIZE\<close>: 128 on ESP32 and ESP8266, 30 elsewhere.\<close>

fun I2C_BUFFERSIZE :: "platform \<Rightarrow> nat" where
  "I2C_BUFFERSIZE ESP = 128"
| "I2C_BUFFERSIZE AVR_STM = 30"

definition I2C_WRITEDELAY :: "32 word" where
  "I2C_WRITEDELAY = 5000"

subsection \<open>Buffers\<close>

text \<open>
  A \<^verbatim>\<open>uint8_t *\<close> is the memory seen through it: \<open>p i\<close> is \<^verbatim>\<open>p[i]\<close>. No bound is
  attached, as in C; the callers' contract (``buffer is large enough'') is theirs.
\<close>

type_synonym bytes = "nat \<Rightarrow> 8 word"

text \<open>\<^verbatim>\<open>buffer += k\<close> on a source pointer.\<close>

definition ptr_add :: "bytes \<Rightarrow> nat \<Rightarrow> bytes" where
  "ptr_add p k = (\<lambda>i. p (i + k))"

text \<open>The bytes \<^verbatim>\<open>p[0] .. p[n-1]\<close>.\<close>

definition peek :: "bytes \<Rightarrow> nat \<Rightarrow> 8 word list" where
  "peek p n = map p [0..<n]"

text \<open>Storing the received bytes at \<^verbatim>\<open>p[off], p[off+1], ...\<close>.\<close>

definition poke :: "bytes \<Rightarrow> nat \<Rightarrow> 8 word list \<Rightarrow> bytes" where
  "poke p off ds = (\<lambda>i. if off \<le> i \<and> i < off + length ds then ds ! (i - off) else p i)"

text \<open>
  \<^verbatim>\<open>memcmp\<close>: zero when the first \<open>n\<close> bytes agree, else the difference of the first
  pair of bytes that differ, read as unsigned.
\<close>

fun memcmp_list :: "8 word list \<Rightarrow> 8 word list \<Rightarrow> int" where
  "memcmp_list (x # xs) (y # ys) = (if x = y then memcmp_list xs ys else uint x - uint y)"
| "memcmp_list _ _ = 0"

definition memcmp :: "bytes \<Rightarrow> bytes \<Rightarrow> nat \<Rightarrow> int" where
  "memcmp p q n = memcmp_list (peek p n) (peek q n)"

subsection \<open>The driver object and its world\<close>

text \<open>
  What the driver does on the bus is recorded in \<open>log\<close>, one event per transaction, in
  the order issued: a zero-length probe; the data transaction of one \<^verbatim>\<open>_WriteBlock\<close>
  call; the address transaction of one \<^verbatim>\<open>_ReadBlock\<close> call and the request that
  follows it. An event holds the call's logical address, the control byte addressed, the
  bytes put on the wire and the answer.
\<close>

datatype event =
    Probe "8 word" int
  | Write "32 word" "8 word" "8 word list" int
  | Select "32 word" "8 word" "8 word list" int
  | Request "32 word" "8 word" nat "8 word list"

text \<open>
  \<open>pageSize\<close> and \<open>extraTWR\<close> are set from the header
  \<^verbatim>\<open>I2C_24LC1025.h\<close>, which is not among the sources: they are parameters here.
  \<open>txaddr\<close> and \<open>txbuf\<close> are the transmission that the \<^verbatim>\<open>TwoWire\<close> object is
  assembling.
\<close>

record driver =
  platform :: platform
  deviceAddress :: "8 word"
  actualAddress :: "8 word"
  pageSize :: nat
  extraTWR :: nat
  lastWrite :: "32 word"
  txaddr :: "8 word"
  txbuf :: "8 word list"
  clock :: "nat \<Rightarrow> 32 word"
  ticks :: nat
  acks :: "nat \<Rightarrow> int"
  ntx :: nat
  rx :: "nat \<Rightarrow> 8 word list"
  nrx :: nat
  log :: "event list"

subsection \<open>The collaborators: clock and bus\<close>

text \<open>\<^verbatim>\<open>micros()\<close>: the next reading of the clock.\<close>

definition micros :: "driver \<Rightarrow> 32 word \<times> driver" where
  "micros s = (clock s (ticks s), s\<lparr>ticks := Suc (ticks s)\<rparr>)"

definition wire_beginTransmission :: "8 word \<Rightarrow> driver \<Rightarrow> driver" where
  "wire_beginTransmission a s = s\<lparr>txaddr := a, txbuf := []\<rparr>"

definition wire_write :: "8 word list \<Rightarrow> driver \<Rightarrow> driver" where
  "wire_write bs s = s\<lparr>txbuf := txbuf s @ bs\<rparr>"

text \<open>\<^verbatim>\<open>endTransmission()\<close>: the next status the bus reports, 0 for success.\<close>

definition wire_endTransmission :: "driver \<Rightarrow> int \<times> driver" where
  "wire_endTransmission s = (acks s (ntx s), s\<lparr>ntx := Suc (ntx s)\<rparr>)"

text \<open>
  \<^verbatim>\<open>requestFrom(address, quantity)\<close> followed by that many \<^verbatim>\<open>read()\<close>: the bytes
  the device delivers, never more than asked for (``readBytes will always be equal or
  smaller to length'').
\<close>

definition wire_requestFrom :: "nat \<Rightarrow> driver \<Rightarrow> 8 word list \<times> driver" where
  "wire_requestFrom quantity s = (take quantity (rx s (nrx s)), s\<lparr>nrx := Suc (nrx s)\<rparr>)"

definition record_event :: "event \<Rightarrow> driver \<Rightarrow> driver" where
  "record_event e s = s\<lparr>log := log s @ [e]\<rparr>"

subsection \<open>Private functions\<close>

text \<open>
  \<^verbatim>\<open>uint32_t waitTime = I2C_WRITEDELAY + _extraTWR * 1000UL\<close>, in 32-bit arithmetic.
\<close>

definition waitTime :: "driver \<Rightarrow> 32 word" where
  "waitTime s = I2C_WRITEDELAY + of_nat (extraTWR s) * 1000"

text \<open>The loop of \<^verbatim>\<open>_waitEEReady\<close>.\<close>

partial_function (option) waitEEReady_loop :: "32 word \<Rightarrow> driver \<Rightarrow> driver option" where
  "waitEEReady_loop wt s =
     (let (now, s1) = micros s in
      if now - lastWrite s1 \<le> wt then
        (let (x, s2) = wire_endTransmission (wire_beginTransmission (deviceAddress s1) s1);
             s3 = record_event (Probe (txaddr s2) x) s2
         in if x = 0 then Some s3 else waitEEReady_loop wt s3)
      else Some s1)"

definition waitEEReady :: "driver \<Rightarrow> driver option" where
  "waitEEReady s = waitEEReady_loop (waitTime s) s"

text \<open>
  The loop of \<^verbatim>\<open>_beginTransmission\<close>: the same wait, on the control byte of the
  bank (\<^verbatim>\<open>yield()\<close> and \<^verbatim>\<open>delayMicroseconds(50)\<close> only let time pass, which the
  clock's next reading shows).
\<close>

partial_function (option) beginTransmission_loop :: "32 word \<Rightarrow> driver \<Rightarrow> driver option" where
  "beginTransmission_loop wt s =
     (let (now, s1) = micros s in
      if now - lastWrite s1 \<le> wt then
        (let (x, s2) = wire_endTransmission (wire_beginTransmission (actualAddress s1) s1);
             s3 = record_event (Probe (txaddr s2) x) s2
         in if x = 0 then Some s3 else beginTransmission_loop wt s3)
      else Some s1)"

text \<open>
  \<^verbatim>\<open>_beginTransmission\<close>: the control byte is the device address, with bit
  \<^verbatim>\<open>0x04\<close> set for an address at or above \<^verbatim>\<open>0x10000\<close>; the two bytes queued are the
  high and the low byte of \<^verbatim>\<open>memoryAddress & 0xFFFF\<close>.
\<close>

definition memAddr :: "32 word \<Rightarrow> 16 word" where
  "memAddr memoryAddress = ucast (memoryAddress AND 0xFFFF)"

definition beginTransmission :: "32 word \<Rightarrow> driver \<Rightarrow> driver option" where
  "beginTransmission memoryAddress s =
     (let s1 = s\<lparr>actualAddress := deviceAddress s\<rparr>;
          s2 = (if memoryAddress \<ge> 0x10000
                then s1\<lparr>actualAddress := actualAddress s1 OR 0x04\<rparr> else s1)
      in do {
        s3 \<leftarrow> beginTransmission_loop (waitTime s2) s2;
        let s4 = wire_beginTransmission (actualAddress s3) s3;
        let s5 = wire_write [ucast (drop_bit 8 (memAddr memoryAddress) AND 0xFF)] s4;
        Some (wire_write [ucast (memAddr memoryAddress AND 0xFF)] s5)
      })"

text \<open>
  \<^verbatim>\<open>_WriteBlock\<close>: one data transaction; returns the status of the bus and stamps
  \<^verbatim>\<open>_lastWrite\<close> whatever the status.
\<close>

definition WriteBlock :: "32 word \<Rightarrow> bytes \<Rightarrow> nat \<Rightarrow> driver \<Rightarrow> (int \<times> driver) option" where
  "WriteBlock memoryAddress buffer len s =
     do {
       s1 \<leftarrow> waitEEReady s;
       s2 \<leftarrow> beginTransmission memoryAddress s1;
       let s3 = wire_write (peek buffer len) s2;
       let (rv, s4) = wire_endTransmission s3;
       let s5 = record_event (Write memoryAddress (txaddr s4) (txbuf s4) rv) s4;
       let (now, s6) = micros s5;
       Some (rv, s6\<lparr>lastWrite := now\<rparr>)
     }"

text \<open>
  \<^verbatim>\<open>_ReadBlock\<close>: the address transaction, then the request. Returns the number of
  bytes read, 0 when the address transaction failed (the buffer is then untouched).
\<close>

definition ReadBlock ::
  "32 word \<Rightarrow> bytes \<Rightarrow> nat \<Rightarrow> nat \<Rightarrow> driver \<Rightarrow> (nat \<times> bytes \<times> driver) option" where
  "ReadBlock memoryAddress buffer off len s =
     do {
       s1 \<leftarrow> waitEEReady s;
       s2 \<leftarrow> beginTransmission memoryAddress s1;
       let (rv, s3) = wire_endTransmission s2;
       let s4 = record_event (Select memoryAddress (txaddr s3) (txbuf s3) rv) s3;
       if rv \<noteq> 0 then Some (0, buffer, s4)
       else do {
         let (ds, s5) = wire_requestFrom len s4;
         let s6 = record_event (Request memoryAddress (actualAddress s5) len ds) s5;
         Some (List.length ds, poke buffer off ds, s6)
       }
     }"

text \<open>
  \<^verbatim>\<open>_pageBlock\<close>: the chunked write loop. \<^verbatim>\<open>length\<close> is a \<^verbatim>\<open>uint16_t\<close>,
  \<^verbatim>\<open>bytesUntilPageBoundary\<close> a \<^verbatim>\<open>uint8_t\<close> (hence \<open>mod 256\<close>); a page size of 0
  divides by zero, which yields no result.
\<close>

partial_function (option) pageBlock ::
  "32 word \<Rightarrow> bytes \<Rightarrow> 16 word \<Rightarrow> bool \<Rightarrow> driver \<Rightarrow> (int \<times> driver) option" where
  "pageBlock addr buffer len incrBuffer s =
     (if len > 0 then
        if pageSize s = 0 then None
        else
          (let bytesUntilPageBoundary = (pageSize s - unat addr mod pageSize s) mod 256;
               cnt0 = I2C_BUFFERSIZE (platform s);
               cnt1 = (if cnt0 > unat len then unat len else cnt0);
               cnt = (if cnt1 > bytesUntilPageBoundary then bytesUntilPageBoundary else cnt1)
           in do {
             (rv, s1) \<leftarrow> WriteBlock addr buffer cnt s;
             if rv \<noteq> 0 then Some (rv, s1)
             else pageBlock (addr + of_nat cnt) (if incrBuffer then ptr_add buffer cnt else buffer)
                    (len - of_nat cnt) incrBuffer s1
           })
      else Some (0, s))"

subsection \<open>Public functions\<close>

definition writeByte :: "32 word \<Rightarrow> 8 word \<Rightarrow> driver \<Rightarrow> (int \<times> driver) option" where
  "writeByte memoryAddress data s = WriteBlock memoryAddress (\<lambda>_. data) 1 s"

text \<open>
  \<^verbatim>\<open>setBlock\<close>: a local array of \<^verbatim>\<open>I2C_BUFFERSIZE\<close> copies of \<open>data\<close>; \<open>stack\<close> is
  what lies behind the array.
\<close>

definition setBlock ::
  "32 word \<Rightarrow> 8 word \<Rightarrow> 32 word \<Rightarrow> bytes \<Rightarrow> driver \<Rightarrow> (int \<times> driver) option" where
  "setBlock memoryAddress data len stack s =
     pageBlock memoryAddress
       (\<lambda>i. if i < I2C_BUFFERSIZE (platform s) then data else stack i)
       (ucast len) False s"

text \<open>
  \<^verbatim>\<open>writeBlock\<close>: the \<^verbatim>\<open>uint32_t length\<close> is passed to the \<^verbatim>\<open>uint16_t length\<close>
  of \<^verbatim>\<open>_pageBlock\<close>.
\<close>

definition writeBlock ::
  "32 word \<Rightarrow> bytes \<Rightarrow> 32 word \<Rightarrow> driver \<Rightarrow> (int \<times> driver) option" where
  "writeBlock memoryAddress buffer len s =
     pageBlock memoryAddress buffer (ucast len) True s"

text \<open>\<^verbatim>\<open>readByte\<close>: \<open>rdata\<close> is the uninitialised local the byte is read into.\<close>

definition readByte :: "32 word \<Rightarrow> 8 word \<Rightarrow> driver \<Rightarrow> (8 word \<times> driver) option" where
  "readByte memoryAddress rdata s =
     do {
       (n, b, s1) \<leftarrow> ReadBlock memoryAddress (\<lambda>_. rdata) 0 1 s;
       Some (b 0, s1)
     }"

text \<open>The \<^verbatim>\<open>while\<close> loop of \<^verbatim>\<open>readBlock\<close>.\<close>

partial_function (option) readBlock_loop ::
  "32 word \<Rightarrow> bytes \<Rightarrow> nat \<Rightarrow> 32 word \<Rightarrow> 32 word \<Rightarrow> driver
    \<Rightarrow> (32 word \<times> bytes \<times> driver) option" where
  "readBlock_loop addr buffer off len rv s =
     (if len > 0 then
        (let cnt0 = I2C_BUFFERSIZE (platform s);
             cnt = (if cnt0 > unat len then unat len else cnt0)
         in do {
           (n, buffer1, s1) \<leftarrow> ReadBlock addr buffer off cnt s;
           readBlock_loop (addr + of_nat cnt) buffer1 (off + cnt) (len - of_nat cnt)
             (rv + of_nat n) s1
         })
      else Some (rv, buffer, s))"

text \<open>
  \<^verbatim>\<open>readBlock\<close>: a request that spans \<^verbatim>\<open>0x10000\<close> is served by two calls of
  itself; the destination is the array \<open>buffer\<close> from index \<open>off\<close> on.
\<close>

partial_function (option) readBlock ::
  "32 word \<Rightarrow> bytes \<Rightarrow> nat \<Rightarrow> 32 word \<Rightarrow> driver \<Rightarrow> (32 word \<times> bytes \<times> driver) option" where
  "readBlock memoryAddress buffer off len s =
     (if memoryAddress < 0x10000 \<and> memoryAddress + len > 0x10000 then
        (let sublen = 0x10000 - memoryAddress
         in do {
           (rv1, buffer1, s1) \<leftarrow> readBlock memoryAddress buffer off sublen s;
           (rv2, buffer2, s2) \<leftarrow> readBlock 0x10000 buffer1 (off + unat sublen) (len - sublen) s1;
           Some (rv1 + rv2, buffer2, s2)
         })
      else readBlock_loop memoryAddress buffer off len 0 s)"

text \<open>
  \<^verbatim>\<open>updateBlock\<close>: the array \<^verbatim>\<open>buf\<close> is declared in the body of the loop and
  not initialised. It lies at the same place in every round, so that a round finds in it
  what the round before left there, and the first round what lay on the stack: \<open>buf\<close>
  is handed from round to round. The status that \<^verbatim>\<open>_pageBlock\<close> returns is dropped.
\<close>

partial_function (option) updateBlock_loop ::
  "32 word \<Rightarrow> bytes \<Rightarrow> 32 word \<Rightarrow> 32 word \<Rightarrow> bytes \<Rightarrow> driver \<Rightarrow> (32 word \<times> driver) option" where
  "updateBlock_loop addr buffer len rv buf s =
     (if len > 0 then
        (let cnt0 = I2C_BUFFERSIZE (platform s);
             cnt = (if cnt0 > unat len then unat len else cnt0)
         in do {
           (n, buf1, s1) \<leftarrow> ReadBlock addr buf 0 cnt s;
           s2 \<leftarrow> (if memcmp buffer buf1 cnt \<noteq> 0
                  then do { (st, s') \<leftarrow> pageBlock addr buffer (of_nat cnt) True s1; Some s' }
                  else Some s1);
           updateBlock_loop (addr + of_nat cnt) (ptr_add buffer cnt) (len - of_nat cnt)
             (rv + of_nat n) buf1 s2
         })
      else Some (rv, s))"

text \<open>\<open>stack\<close> is what lies at the place of \<^verbatim>\<open>buf\<close> when the loop is entered.\<close>

definition updateBlock ::
  "32 word \<Rightarrow> bytes \<Rightarrow> 32 word \<Rightarrow> bytes \<Rightarrow> driver \<Rightarrow> (32 word \<times> driver) option" where
  "updateBlock memoryAddress buffer len stack s =
     updateBlock_loop memoryAddress buffer len 0 stack s"

definition updateByte :: "32 word \<Rightarrow> 8 word \<Rightarrow> 8 word \<Rightarrow> driver \<Rightarrow> (int \<times> driver) option" where
  "updateByte memoryAddress data rdata s =
     do {
       (b, s1) \<leftarrow> readByte memoryAddress rdata s;
       if data = b then Some (0, s1) else writeByte memoryAddress data s1
     }"

text \<open>
  The verify wrappers; \<open>stack\<close> is the uninitialised \<^verbatim>\<open>data[length]\<close>.
\<close>

definition writeBlockVerify ::
  "32 word \<Rightarrow> bytes \<Rightarrow> 32 word \<Rightarrow> bytes \<Rightarrow> driver \<Rightarrow> (bool \<times> driver) option" where
  "writeBlockVerify memoryAddress buffer len stack s =
     do {
       (rv, s1) \<leftarrow> writeBlock memoryAddress buffer len s;
       if rv \<noteq> 0 then Some (False, s1)
       else do {
         (n, data, s2) \<leftarrow> readBlock memoryAddress stack 0 len s1;
         if n \<noteq> len then Some (False, s2)
         else Some (memcmp data buffer (unat len) = 0, s2)
       }
     }"

definition updateBlockVerify ::
  "32 word \<Rightarrow> bytes \<Rightarrow> 32 word \<Rightarrow> bytes \<Rightarrow> bytes \<Rightarrow> driver \<Rightarrow> (bool \<times> driver) option" where
  "updateBlockVerify memoryAddress buffer len stack stack' s =
     do {
       (n0, s1) \<leftarrow> updateBlock memoryAddress buffer len stack s;
       if n0 \<noteq> len then Some (False, s1)
       else do {
         (n, data, s2) \<leftarrow> readBlock memoryAddress stack' 0 len s1;
         if n \<noteq> len then Some (False, s2)
         else Some (memcmp data buffer (unat len) = 0, s2)
       }
     }"

declare waitEEReady_loop.simps [code] beginTransmission_loop.simps [code] pageBlock.simps [code]
  readBlock_loop.simps [code] readBlock.simps [code] updateBlock_loop.simps [code]

section \<open>Notions for stating the properties\<close>

text \<open>
  What no call changes: the configuration of the object and the three streams of the
  world (what the clock, the bus and the device will answer).
\<close>

definition same_config :: "driver \<Rightarrow> driver \<Rightarrow> bool" where
  "same_config s s' \<longleftrightarrow>
     platform s' = platform s \<and> deviceAddress s' = deviceAddress s \<and> pageSize s' = pageSize s \<and>
     extraTWR s' = extraTWR s \<and> clock s' = clock s \<and> acks s' = acks s \<and> rx s' = rx s"

text \<open>A zero-length probe of one of the two wait loops.\<close>

fun is_poll :: "event \<Rightarrow> bool" where
  "is_poll (Probe c x) = True"
| "is_poll e = False"

text \<open>
  The control byte and the two address bytes of a transaction at logical address \<open>a\<close>,
  as \<^verbatim>\<open>_beginTransmission\<close> leaves them (lemma \<open>beginTransmission_run\<close>).
\<close>

definition controlByte :: "driver \<Rightarrow> 32 word \<Rightarrow> 8 word" where
  "controlByte s a = (if a \<ge> 0x10000 then deviceAddress s OR 0x04 else deviceAddress s)"

definition addressBytes :: "32 word \<Rightarrow> 8 word list" where
  "addressBytes a = [ucast (drop_bit 8 (memAddr a) AND 0xFF), ucast (memAddr a AND 0xFF)]"

text \<open>
  A clock that leaves every wait: after any reading, and whenever the last write was,
  some later reading is more than \<open>waitTime\<close> past it. Both wait loops then end, whatever
  the device answers.
\<close>

definition clock_live :: "driver \<Rightarrow> bool" where
  "clock_live s \<longleftrightarrow> (\<forall>t lw. \<exists>n. waitTime s < clock s (t + n) - lw)"


text \<open>
  The deadline of the ready-wait gate in microseconds: the fixed recovery time of 5000
  and the configured extra delay, which the object holds in milliseconds.
\<close>

definition deadline :: "driver \<Rightarrow> nat" where
  "deadline s = 5000 + extraTWR s * 1000"

text \<open>
  The microseconds since the last write at the \<open>k\<close>-th reading of the clock from
  now on: the difference of two readings of the 32-bit counter.
\<close>

definition elapsed :: "driver \<Rightarrow> nat \<Rightarrow> nat" where
  "elapsed s k = unat (clock s (ticks s + k) - lastWrite s)"

text \<open>The \<open>k\<close>-th reading shows the deadline as passed.\<close>

definition expired :: "driver \<Rightarrow> nat \<Rightarrow> bool" where
  "expired s k \<longleftrightarrow> deadline s < elapsed s k"

text \<open>The first \<open>m\<close> probes of \<^verbatim>\<open>_waitEEReady\<close> from state \<open>s\<close>, with their answers.\<close>

definition probe_events :: "driver \<Rightarrow> nat \<Rightarrow> event list" where
  "probe_events s m = map (\<lambda>k. Probe (deviceAddress s) (acks s (ntx s + k))) [0..<m]"


text \<open>
  A device for concrete runs: an AVR board, the EEPROM at \<^verbatim>\<open>0x50\<close>, pages of 128 bytes,
  a clock that advances by one microsecond per reading; the bus statuses and the bytes the
  device delivers are the parameters.
\<close>

definition bench :: "(nat \<Rightarrow> int) \<Rightarrow> (nat \<Rightarrow> 8 word list) \<Rightarrow> driver" where
  "bench ak r =
     \<lparr>platform = AVR_STM, deviceAddress = 0x50, actualAddress = 0x50, pageSize = 128,
      extraTWR = 0, lastWrite = 0, txaddr = 0, txbuf = [], clock = (\<lambda>n. of_nat n), ticks = 0,
      acks = ak, ntx = 0, rx = r, nrx = 0, log = []\<rparr>"


text \<open>The events of a call that took the world from \<open>s\<close> to \<open>s'\<close>.\<close>

definition emitted :: "driver \<Rightarrow> driver \<Rightarrow> event list" where
  "emitted s s' = drop (length (log s)) (log s')"

text \<open>
  The size of the next chunk: the least of the transfer buffer, the bytes that remain and
  the distance to the end of the page.
\<close>

definition chunkSize :: "nat \<Rightarrow> nat \<Rightarrow> 32 word \<Rightarrow> nat \<Rightarrow> nat" where
  "chunkSize ps bs a rem = min (min bs rem) (ps - unat a mod ps)"

text \<open>
  The events of one run of \<^verbatim>\<open>_pageBlock\<close> from address \<open>a\<close> with \<open>rem\<close> bytes to
  write and result \<open>rv\<close>: probes and chunk writes only; each write is at the current
  address, of \<open>chunkSize\<close> bytes of the buffer; a write that reports a status other than 0
  ends the run with that status; after a write that reports 0 the run goes on behind the
  chunk (lemma \<open>pageBlock_run\<close>).
\<close>

fun page_events ::
  "nat \<Rightarrow> nat \<Rightarrow> 8 word \<Rightarrow> bool \<Rightarrow> 32 word \<Rightarrow> bytes \<Rightarrow> nat \<Rightarrow> event list \<Rightarrow> int \<Rightarrow> bool" where
  "page_events ps bs dev inc a buf rem [] rv = (rem = 0 \<and> rv = 0)"
| "page_events ps bs dev inc a buf rem (Probe c x # es) rv =
     (0 < rem \<and> page_events ps bs dev inc a buf rem es rv)"
| "page_events ps bs dev inc a buf rem (Write a' c p st # es) rv =
     (0 < rem \<and> a' = a \<and> c = (if 0x10000 \<le> a then dev OR 0x04 else dev) \<and>
      p = addressBytes a @ peek buf (chunkSize ps bs a rem) \<and>
      (if st \<noteq> 0 then es = [] \<and> rv = st
       else page_events ps bs dev inc (a + of_nat (chunkSize ps bs a rem))
              (if inc then ptr_add buf (chunkSize ps bs a rem) else buf)
              (rem - chunkSize ps bs a rem) es rv))"
| "page_events ps bs dev inc a buf rem (e # es) rv = False"

text \<open>
  The chunk writes among the events, \<open>rem\<close> bytes remaining before the first: each is
  non-empty (its payload holds two address bytes and the data), no longer than the
  transfer buffer \<open>bs\<close>, the distance to the end of the page and the bytes that remain,
  and lies in one page of size \<open>ps\<close>.
\<close>

fun chunks_ok :: "nat \<Rightarrow> nat \<Rightarrow> nat \<Rightarrow> event list \<Rightarrow> bool" where
  "chunks_ok ps bs rem [] = True"
| "chunks_ok ps bs rem (Write a c p st # es) =
     (0 < length p - 2 \<and>
      length p - 2 \<le> min bs (min (ps - unat a mod ps) rem) \<and>
      unat a div ps = (unat a + (length p - 2) - 1) div ps \<and>
      chunks_ok ps bs (rem - (length p - 2)) es)"
| "chunks_ok ps bs rem (e # es) = chunks_ok ps bs rem es"

text \<open>A chunk write that lies in one bank of \<^verbatim>\<open>0x10000\<close> bytes.\<close>

fun within_bank :: "event \<Rightarrow> bool" where
  "within_bank (Write a c p st) = (unat a div 65536 = (unat a + (length p - 2) - 1) div 65536)"
| "within_bank e = True"

text \<open>The statuses of the chunk writes, in order.\<close>

fun write_statuses :: "event list \<Rightarrow> int list" where
  "write_statuses [] = []"
| "write_statuses (Write a c p st # es) = st # write_statuses es"
| "write_statuses (e # es) = write_statuses es"

text \<open>
  The result \<open>rv\<close> against the chunk statuses of the run: 0 exactly when all are 0;
  otherwise the status of the last event, a chunk write, with every chunk before it at 0.
\<close>

definition first_failure :: "int \<Rightarrow> event list \<Rightarrow> bool" where
  "first_failure rv evs \<longleftrightarrow>
     (rv = 0 \<longleftrightarrow> list_all (\<lambda>st. st = 0) (write_statuses evs)) \<and>
     (rv \<noteq> 0 \<longrightarrow> (\<exists>pre a c p. evs = pre @ [Write a c p rv] \<and>
                   list_all (\<lambda>st. st = 0) (write_statuses pre)))"

text \<open>
  The memory image of the spec's hypothetical device: it keeps the bytes of every
  successful write transaction at consecutive logical addresses. \<open>store_bytes a bs\<close> is
  the single unchunked write of \<open>bs\<close> at \<open>a\<close>; \<open>replay\<close> applies the write
  transactions of a run in order.
\<close>

fun store_bytes :: "32 word \<Rightarrow> 8 word list \<Rightarrow> (32 word \<Rightarrow> 8 word) \<Rightarrow> (32 word \<Rightarrow> 8 word)" where
  "store_bytes a [] m = m"
| "store_bytes a (b # bs) m = store_bytes (a + 1) bs (m(a := b))"

fun replay :: "event list \<Rightarrow> (32 word \<Rightarrow> 8 word) \<Rightarrow> (32 word \<Rightarrow> 8 word)" where
  "replay [] m = m"
| "replay (Write a c p st # es) m = replay es (if st = 0 then store_bytes a (drop 2 p) m else m)"
| "replay (e # es) m = replay es m"

text \<open>
  An event of a read loop that serves the addresses from \<open>lo\<close> up to \<open>hi\<close>: no data
  transaction, and every request lies in that range and receives no more than it asks.
\<close>

fun read_within :: "nat \<Rightarrow> nat \<Rightarrow> event \<Rightarrow> bool" where
  "read_within lo hi (Probe c x) = True"
| "read_within lo hi (Select a c p st) = (lo \<le> unat a \<and> unat a < hi)"
| "read_within lo hi (Request a c q ds) = (lo \<le> unat a \<and> unat a + q \<le> hi \<and> length ds \<le> q)"
| "read_within lo hi (Write a c p st) = False"

text \<open>A request that does not straddle the bank boundary at \<^verbatim>\<open>0x10000\<close>.\<close>

fun one_bank :: "event \<Rightarrow> bool" where
  "one_bank (Request a c q ds) = (unat a + q \<le> 0x10000 \<or> 0x10000 \<le> unat a)"
| "one_bank e = True"

text \<open>
  The events of one run of the read loop from address \<open>a\<close> with \<open>rem\<close> bytes to
  read: probes, and for each round an address transaction at the current address and,
  when it is acknowledged, a request there for the least of the transfer buffer \<open>bs\<close>
  and the bytes that remain. The next round starts behind that chunk, whether it was
  read or not; the run ends when nothing remains (lemma \<open>readBlock_loop_run\<close>).
\<close>

fun read_events :: "nat \<Rightarrow> 8 word \<Rightarrow> 32 word \<Rightarrow> nat \<Rightarrow> event list \<Rightarrow> bool" where
  "read_events bs dev a rem [] = (rem = 0)"
| "read_events bs dev a rem (Probe c x # es) = (0 < rem \<and> read_events bs dev a rem es)"
| "read_events bs dev a rem (Select a' c p st # Request a'' c' q ds # es) =
     (0 < rem \<and> a' = a \<and> c = (if 0x10000 \<le> a then dev OR 0x04 else dev) \<and>
      p = addressBytes a \<and> st = 0 \<and>
      a'' = a \<and> c' = c \<and> q = min bs rem \<and> length ds \<le> q \<and>
      read_events bs dev (a + of_nat (min bs rem)) (rem - min bs rem) es)"
| "read_events bs dev a rem (Select a' c p st # es) =
     (0 < rem \<and> a' = a \<and> c = (if 0x10000 \<le> a then dev OR 0x04 else dev) \<and>
      p = addressBytes a \<and> st \<noteq> 0 \<and>
      read_events bs dev (a + of_nat (min bs rem)) (rem - min bs rem) es)"
| "read_events bs dev a rem (e # es) = False"

text \<open>The bytes received by the requests of a run.\<close>

fun received :: "event list \<Rightarrow> nat" where
  "received [] = 0"
| "received (Request a c q ds # es) = length ds + received es"
| "received (e # es) = received es"

text \<open>A data transaction of \<^verbatim>\<open>_WriteBlock\<close>.\<close>

fun is_write :: "event \<Rightarrow> bool" where
  "is_write (Write a c p st) = True"
| "is_write e = False"

text \<open>A read of the compare phase that succeeded in full.\<close>

fun read_complete :: "event \<Rightarrow> bool" where
  "read_complete (Select a c p st) = (st = 0)"
| "read_complete (Request a c q ds) = (length ds = q)"
| "read_complete e = True"

text \<open>
  The device as the driver addresses it. The control byte of the address transaction
  chooses the bank (bit \<^verbatim>\<open>0x04\<close>, set for a logical address from \<^verbatim>\<open>0x10000\<close> on)
  and the two address bytes set a 16-bit counter, which a sequential read advances within
  that bank: a read does not run from one bank into the other (``fix reading over 64K
  block border'' in the history of the source; the split in \<^verbatim>\<open>readBlock\<close>).
  \<open>bank_address a j\<close> is the place in the memory image of byte \<open>j\<close> of a request
  made at logical address \<open>a\<close>.
\<close>

definition bank_address :: "32 word \<Rightarrow> nat \<Rightarrow> 32 word" where
  "bank_address a j = (if 0x10000 \<le> a then 0x10000 else 0) + ((a + of_nat j) AND 0xFFFF)"

text \<open>
  The device answers: every address transaction is acknowledged, and a request receives
  the bytes that the memory image \<open>m\<close> holds at the places the device reads.
\<close>

fun read_banked :: "(32 word \<Rightarrow> 8 word) \<Rightarrow> event \<Rightarrow> bool" where
  "read_banked m (Select a c p st) = (st = 0)"
| "read_banked m (Request a c q ds) = (ds = map (\<lambda>j. m (bank_address a j)) [0..<q])"
| "read_banked m e = True"

text \<open>
  The \<open>n\<close> bytes from logical address \<open>a\<close> on lie in one of the two banks of the
  device.
\<close>

definition in_one_bank :: "32 word \<Rightarrow> nat \<Rightarrow> bool" where
  "in_one_bank a n \<longleftrightarrow> unat a + n \<le> 0x10000 \<or> (0x10000 \<le> unat a \<and> unat a + n \<le> 0x20000)"

text \<open>
  A memory image for a run across the bank boundary: the 35 bytes from \<^verbatim>\<open>0xFFF0\<close> on
  hold 7, every other byte 0.
\<close>

definition image7 :: "32 word \<Rightarrow> 8 word" where
  "image7 x = (if 0xFFF0 \<le> x \<and> x < 0x10013 then 7 else 0)"

section \<open>The primitives: frame and termination\<close>

lemma same_config_refl [simp]: "same_config s s"
  by (simp add: same_config_def)

lemma same_config_trans: "same_config s s1 \<Longrightarrow> same_config s1 s2 \<Longrightarrow> same_config s s2"
  by (simp add: same_config_def)

lemma same_config_live: "same_config s s' \<Longrightarrow> clock_live s \<Longrightarrow> clock_live s'"
  by (simp add: same_config_def clock_live_def waitTime_def)

lemmas wire_defs = micros_def wire_beginTransmission_def wire_write_def wire_endTransmission_def
  wire_requestFrom_def record_event_def

subsection \<open>The wait loops\<close>

lemma waitEEReady_loop_run:
  assumes "waitEEReady_loop wt s = Some s'"
  shows "same_config s s' \<and> lastWrite s' = lastWrite s \<and> actualAddress s' = actualAddress s \<and>
     nrx s' = nrx s \<and> (\<exists>ps. log s' = log s @ ps \<and> list_all is_poll ps)"
proof (rule waitEEReady_loop.raw_induct
    [where P = "\<lambda>wt s s'. same_config s s' \<and> lastWrite s' = lastWrite s \<and>
       actualAddress s' = actualAddress s \<and> nrx s' = nrx s \<and>
       (\<exists>ps. log s' = log s @ ps \<and> list_all is_poll ps)", OF _ assms])
  fix loop :: "32 word \<Rightarrow> driver \<Rightarrow> driver option" and wt s s'
  assume IH: "\<And>wt s s'. loop wt s = Some s' \<Longrightarrow>
       same_config s s' \<and> lastWrite s' = lastWrite s \<and> actualAddress s' = actualAddress s \<and>
       nrx s' = nrx s \<and> (\<exists>ps. log s' = log s @ ps \<and> list_all is_poll ps)"
  assume step: "(let (now, s1) = micros s in
      if now - lastWrite s1 \<le> wt then
        (let (x, s2) = wire_endTransmission (wire_beginTransmission (deviceAddress s1) s1);
             s3 = record_event (Probe (txaddr s2) x) s2
         in if x = 0 then Some s3 else loop wt s3)
      else Some s1) = Some s'"
  let ?s3 = "s\<lparr>ticks := Suc (ticks s), txaddr := deviceAddress s, txbuf := [], ntx := Suc (ntx s),
               log := log s @ [Probe (deviceAddress s) (acks s (ntx s))]\<rparr>"
  show "same_config s s' \<and> lastWrite s' = lastWrite s \<and> actualAddress s' = actualAddress s \<and>
       nrx s' = nrx s \<and> (\<exists>ps. log s' = log s @ ps \<and> list_all is_poll ps)"
  proof (cases "clock s (ticks s) - lastWrite s \<le> wt")
    case False
    with step show ?thesis by (auto simp: wire_defs same_config_def)
  next
    case True
    show ?thesis
    proof (cases "acks s (ntx s) = 0")
      case True
      with step \<open>clock s (ticks s) - lastWrite s \<le> wt\<close> show ?thesis
        by (auto simp: wire_defs same_config_def)
    next
      case False
      with step True have "loop wt ?s3 = Some s'"
        by (simp add: wire_defs)
      from IH[OF this] show ?thesis
        by (auto simp: same_config_def)
    qed
  qed
qed

lemma beginTransmission_loop_run:
  assumes "beginTransmission_loop wt s = Some s'"
  shows "same_config s s' \<and> lastWrite s' = lastWrite s \<and> actualAddress s' = actualAddress s \<and>
     nrx s' = nrx s \<and> (\<exists>ps. log s' = log s @ ps \<and> list_all is_poll ps)"
proof (rule beginTransmission_loop.raw_induct
    [where P = "\<lambda>wt s s'. same_config s s' \<and> lastWrite s' = lastWrite s \<and>
       actualAddress s' = actualAddress s \<and> nrx s' = nrx s \<and>
       (\<exists>ps. log s' = log s @ ps \<and> list_all is_poll ps)", OF _ assms])
  fix loop :: "32 word \<Rightarrow> driver \<Rightarrow> driver option" and wt s s'
  assume IH: "\<And>wt s s'. loop wt s = Some s' \<Longrightarrow>
       same_config s s' \<and> lastWrite s' = lastWrite s \<and> actualAddress s' = actualAddress s \<and>
       nrx s' = nrx s \<and> (\<exists>ps. log s' = log s @ ps \<and> list_all is_poll ps)"
  assume step: "(let (now, s1) = micros s in
      if now - lastWrite s1 \<le> wt then
        (let (x, s2) = wire_endTransmission (wire_beginTransmission (actualAddress s1) s1);
             s3 = record_event (Probe (txaddr s2) x) s2
         in if x = 0 then Some s3 else loop wt s3)
      else Some s1) = Some s'"
  let ?s3 = "s\<lparr>ticks := Suc (ticks s), txaddr := actualAddress s, txbuf := [], ntx := Suc (ntx s),
               log := log s @ [Probe (actualAddress s) (acks s (ntx s))]\<rparr>"
  show "same_config s s' \<and> lastWrite s' = lastWrite s \<and> actualAddress s' = actualAddress s \<and>
       nrx s' = nrx s \<and> (\<exists>ps. log s' = log s @ ps \<and> list_all is_poll ps)"
  proof (cases "clock s (ticks s) - lastWrite s \<le> wt")
    case False
    with step show ?thesis by (auto simp: wire_defs same_config_def)
  next
    case True
    show ?thesis
    proof (cases "acks s (ntx s) = 0")
      case True
      with step \<open>clock s (ticks s) - lastWrite s \<le> wt\<close> show ?thesis
        by (auto simp: wire_defs same_config_def)
    next
      case False
      with step True have "loop wt ?s3 = Some s'"
        by (simp add: wire_defs)
      from IH[OF this] show ?thesis
        by (auto simp: same_config_def)
    qed
  qed
qed

lemma waitEEReady_loop_terminates:
  "wt < clock s (ticks s + n) - lastWrite s \<Longrightarrow> \<exists>s'. waitEEReady_loop wt s = Some s'"
proof (induction n arbitrary: s)
  case 0
  then show ?case
    by (subst waitEEReady_loop.simps) (simp add: wire_defs not_le [symmetric])
next
  case (Suc n)
  let ?s3 = "record_event (Probe (deviceAddress s) (acks s (ntx s)))
               (snd (wire_endTransmission (wire_beginTransmission (deviceAddress s) (snd (micros s)))))"
  have "wt < clock ?s3 (ticks ?s3 + n) - lastWrite ?s3"
    using Suc.prems by (simp add: wire_defs)
  from Suc.IH[OF this] obtain s' where "waitEEReady_loop wt ?s3 = Some s'" ..
  then show ?case
    by (subst waitEEReady_loop.simps) (simp add: wire_defs Let_def)
qed

lemma beginTransmission_loop_terminates:
  "wt < clock s (ticks s + n) - lastWrite s \<Longrightarrow> \<exists>s'. beginTransmission_loop wt s = Some s'"
proof (induction n arbitrary: s)
  case 0
  then show ?case
    by (subst beginTransmission_loop.simps) (simp add: wire_defs not_le [symmetric])
next
  case (Suc n)
  let ?s3 = "record_event (Probe (actualAddress s) (acks s (ntx s)))
               (snd (wire_endTransmission (wire_beginTransmission (actualAddress s) (snd (micros s)))))"
  have "wt < clock ?s3 (ticks ?s3 + n) - lastWrite ?s3"
    using Suc.prems by (simp add: wire_defs)
  from Suc.IH[OF this] obtain s' where "beginTransmission_loop wt ?s3 = Some s'" ..
  then show ?case
    by (subst beginTransmission_loop.simps) (simp add: wire_defs Let_def)
qed

lemma waitEEReady_run:
  assumes "waitEEReady s = Some s'"
  shows "same_config s s' \<and> lastWrite s' = lastWrite s \<and> actualAddress s' = actualAddress s \<and>
     nrx s' = nrx s \<and> (\<exists>ps. log s' = log s @ ps \<and> list_all is_poll ps)"
  using assms waitEEReady_loop_run by (simp add: waitEEReady_def)

lemma clock_live_waitEEReady:
  assumes "clock_live s"
  shows "\<exists>s'. waitEEReady s = Some s'"
proof -
  from assms obtain n where "waitTime s < clock s (ticks s + n) - lastWrite s"
    unfolding clock_live_def by blast
  then show ?thesis
    unfolding waitEEReady_def by (rule waitEEReady_loop_terminates)
qed

subsection \<open>Address transmission and block transfers\<close>

lemma beginTransmission_run:
  assumes "beginTransmission a s = Some s'"
  shows "same_config s s' \<and> lastWrite s' = lastWrite s \<and> nrx s' = nrx s \<and>
     actualAddress s' = controlByte s a \<and> txaddr s' = controlByte s a \<and>
     txbuf s' = addressBytes a \<and> (\<exists>ps. log s' = log s @ ps \<and> list_all is_poll ps)"
proof -
  let ?s2 = "s\<lparr>actualAddress := controlByte s a\<rparr>"
  from assms obtain s3 where loop: "beginTransmission_loop (waitTime ?s2) ?s2 = Some s3"
    and s': "s' = wire_write [ucast (memAddr a AND 0xFF)]
                (wire_write [ucast (drop_bit 8 (memAddr a) AND 0xFF)]
                  (wire_beginTransmission (actualAddress s3) s3))"
    by (auto simp: beginTransmission_def controlByte_def Let_def split: if_splits bind_splits)
  from beginTransmission_loop_run[OF loop] show ?thesis
    by (auto simp: s' wire_defs same_config_def addressBytes_def)
qed

lemma clock_live_beginTransmission:
  assumes "clock_live s"
  shows "\<exists>s'. beginTransmission a s = Some s'"
proof -
  let ?s2 = "s\<lparr>actualAddress := controlByte s a\<rparr>"
  have wt: "waitTime ?s2 = waitTime s" by (simp add: waitTime_def)
  from assms obtain n where "waitTime s < clock ?s2 (ticks ?s2 + n) - lastWrite ?s2"
    unfolding clock_live_def by force
  from beginTransmission_loop_terminates[OF this]
  obtain s3 where "beginTransmission_loop (waitTime ?s2) ?s2 = Some s3"
    unfolding wt by blast
  then show ?thesis
    by (auto simp: beginTransmission_def controlByte_def Let_def)
qed

lemma WriteBlock_run:
  assumes "WriteBlock a buf n s = Some (rv, s')"
  shows "same_config s s' \<and> nrx s' = nrx s \<and>
     (\<exists>ps. list_all is_poll ps \<and>
        log s' = log s @ ps @ [Write a (controlByte s a) (addressBytes a @ peek buf n) rv])"
proof -
  from assms obtain s1 s2 where w: "waitEEReady s = Some s1"
    and b: "beginTransmission a s1 = Some s2"
    and r: "(let s3 = wire_write (peek buf n) s2;
                 (rv, s4) = wire_endTransmission s3;
                 s5 = record_event (Write a (txaddr s4) (txbuf s4) rv) s4;
                 (now, s6) = micros s5
             in Some (rv, s6\<lparr>lastWrite := now\<rparr>)) = Some (rv, s')"
    by (auto simp: WriteBlock_def split: bind_splits)
  from waitEEReady_run[OF w] obtain ps1 where 1: "same_config s s1" "nrx s1 = nrx s"
    "log s1 = log s @ ps1" "list_all is_poll ps1" by blast
  from beginTransmission_run[OF b] obtain ps2 where 2: "same_config s1 s2" "nrx s2 = nrx s1"
    "txaddr s2 = controlByte s1 a" "txbuf s2 = addressBytes a"
    "log s2 = log s1 @ ps2" "list_all is_poll ps2" by blast
  have cb: "controlByte s1 a = controlByte s a"
    using 1(1) by (simp add: controlByte_def same_config_def)
  from r have rv: "rv = acks s2 (ntx s2)"
    and s': "s' = s2\<lparr>txbuf := txbuf s2 @ peek buf n, ntx := Suc (ntx s2),
                 log := log s2 @ [Write a (txaddr s2) (txbuf s2 @ peek buf n) (acks s2 (ntx s2))],
                 ticks := Suc (ticks s2), lastWrite := clock s2 (ticks s2)\<rparr>"
    by (auto simp: wire_defs Let_def)
  have "same_config s s'"
    using 1(1) 2(1) by (simp add: s' same_config_def)
  moreover have "nrx s' = nrx s" using 1(2) 2(2) by (simp add: s')
  moreover have "list_all is_poll (ps1 @ ps2)" using 1(4) 2(6) by simp
  moreover have "log s' = log s @ (ps1 @ ps2) @ [Write a (controlByte s a) (addressBytes a @ peek buf n) rv]"
    using 1(3) 2(3,4,5) cb by (simp add: s' rv)
  ultimately show ?thesis by blast
qed

lemma clock_live_WriteBlock:
  assumes "clock_live s"
  shows "\<exists>rv s'. WriteBlock a buf n s = Some (rv, s')"
proof -
  from clock_live_waitEEReady[OF assms] obtain s1 where w: "waitEEReady s = Some s1" ..
  from waitEEReady_run[OF w] have "same_config s s1" by blast
  then have "clock_live s1" using assms by (rule same_config_live)
  from clock_live_beginTransmission[OF this] obtain s2 where "beginTransmission a s1 = Some s2" ..
  with w show ?thesis
    by (simp add: WriteBlock_def wire_defs Let_def)
qed

lemma ReadBlock_run:
  assumes "ReadBlock a buf off n s = Some (k, buf', s')"
  shows "same_config s s' \<and> lastWrite s' = lastWrite s \<and>
     (\<exists>ps st ds. list_all is_poll ps \<and> length ds \<le> n \<and>
        log s' = log s @ ps @ Select a (controlByte s a) (addressBytes a) st #
                   (if st = 0 then [Request a (controlByte s a) n ds] else []) \<and>
        k = (if st = 0 then length ds else 0) \<and>
        buf' = (if st = 0 then poke buf off ds else buf))"
proof -
  from assms obtain s1 s2 where w: "waitEEReady s = Some s1"
    and b: "beginTransmission a s1 = Some s2"
    and r: "(let (rv, s3) = wire_endTransmission s2;
                 s4 = record_event (Select a (txaddr s3) (txbuf s3) rv) s3
             in if rv \<noteq> 0 then Some (0, buf, s4)
                else (let (ds, s5) = wire_requestFrom n s4;
                          s6 = record_event (Request a (actualAddress s5) n ds) s5
                      in Some (length ds, poke buf off ds, s6))) = Some (k, buf', s')"
    by (auto simp: ReadBlock_def split: bind_splits)
  from waitEEReady_run[OF w] obtain ps1 where 1: "same_config s s1" "lastWrite s1 = lastWrite s"
    "log s1 = log s @ ps1" "list_all is_poll ps1" by blast
  from beginTransmission_run[OF b] obtain ps2 where 2: "same_config s1 s2" "lastWrite s2 = lastWrite s1"
    "txaddr s2 = controlByte s1 a" "txbuf s2 = addressBytes a" "actualAddress s2 = controlByte s1 a"
    "log s2 = log s1 @ ps2" "list_all is_poll ps2" by blast
  have cb: "controlByte s1 a = controlByte s a"
    using 1(1) by (simp add: controlByte_def same_config_def)
  let ?st = "acks s2 (ntx s2)" and ?ds = "take n (rx s2 (nrx s2))"
  have polls: "list_all is_poll (ps1 @ ps2)" using 1(4) 2(7) by simp
  have len: "length ?ds \<le> n" by simp
  show ?thesis
  proof (cases "?st = 0")
    case True
    with r have s': "s' = s2\<lparr>ntx := Suc (ntx s2),
          log := log s2 @ [Select a (txaddr s2) (txbuf s2) 0, Request a (actualAddress s2) n ?ds],
          nrx := Suc (nrx s2)\<rparr>" and k: "k = length ?ds" and buf': "buf' = poke buf off ?ds"
      by (auto simp: wire_defs Let_def)
    have "same_config s s'" using 1(1) 2(1) by (simp add: s' same_config_def)
    moreover have "lastWrite s' = lastWrite s" using 1(2) 2(2) by (simp add: s')
    moreover have "log s' = log s @ (ps1 @ ps2) @ Select a (controlByte s a) (addressBytes a) ?st #
                   (if ?st = 0 then [Request a (controlByte s a) n ?ds] else [])"
      using 1(3) 2(3,4,5,6) cb True by (simp add: s')
    moreover note polls len k buf' True
    ultimately show ?thesis
      by (intro conjI exI[of _ "ps1 @ ps2"] exI[of _ ?st] exI[of _ ?ds]) simp_all
  next
    case False
    with r have s': "s' = s2\<lparr>ntx := Suc (ntx s2),
          log := log s2 @ [Select a (txaddr s2) (txbuf s2) ?st]\<rparr>" and k: "k = 0" and buf': "buf' = buf"
      by (auto simp: wire_defs Let_def)
    have "same_config s s'" using 1(1) 2(1) by (simp add: s' same_config_def)
    moreover have "lastWrite s' = lastWrite s" using 1(2) 2(2) by (simp add: s')
    moreover have "log s' = log s @ (ps1 @ ps2) @ Select a (controlByte s a) (addressBytes a) ?st #
                   (if ?st = 0 then [Request a (controlByte s a) n ?ds] else [])"
      using 1(3) 2(3,4,5,6) cb False by (simp add: s')
    moreover note polls len k buf' False
    ultimately show ?thesis
      by (intro conjI exI[of _ "ps1 @ ps2"] exI[of _ ?st] exI[of _ ?ds]) simp_all
  qed
qed

lemma clock_live_ReadBlock:
  assumes "clock_live s"
  shows "\<exists>k buf' s'. ReadBlock a buf off n s = Some (k, buf', s')"
proof -
  from clock_live_waitEEReady[OF assms] obtain s1 where w: "waitEEReady s = Some s1" ..
  from waitEEReady_run[OF w] have "same_config s s1" by blast
  then have "clock_live s1" using assms by (rule same_config_live)
  from clock_live_beginTransmission[OF this] obtain s2 where "beginTransmission a s1 = Some s2" ..
  with w show ?thesis
    by (simp add: ReadBlock_def wire_defs Let_def)
qed

subsection \<open>The probes of the ready-wait gate\<close>

lemma probe_events_Suc:
  "probe_events s (Suc m) =
     Probe (deviceAddress s) (acks s (ntx s)) # map (\<lambda>k. Probe (deviceAddress s) (acks s (Suc (ntx s) + k))) [0..<m]"
  by (simp add: probe_events_def map_upt_Suc del: upt_Suc)

lemma waitEEReady_loop_polls:
  assumes "\<forall>k<n. clock s (ticks s + k) - lastWrite s \<le> wt \<and> acks s (ntx s + k) \<noteq> 0"
    and "wt < clock s (ticks s + n) - lastWrite s \<or> acks s (ntx s + n) = 0"
  shows "\<exists>s'. waitEEReady_loop wt s = Some s' \<and>
           log s' = log s @ probe_events s (if wt < clock s (ticks s + n) - lastWrite s then n else Suc n) \<and>
           ticks s' = ticks s + Suc n \<and>
           ntx s' = ntx s + (if wt < clock s (ticks s + n) - lastWrite s then n else Suc n)"
  using assms
proof (induction n arbitrary: s)
  case 0
  show ?case
  proof (cases "wt < clock s (ticks s) - lastWrite s")
    case True
    then show ?thesis
      by (subst waitEEReady_loop.simps) (simp add: wire_defs probe_events_def not_le [symmetric])
  next
    case False
    with 0 have "acks s (ntx s) = 0" by simp
    with False show ?thesis
      by (subst waitEEReady_loop.simps) (simp add: wire_defs probe_events_def not_less Let_def)
  qed
next
  case (Suc n)
  let ?s3 = "s\<lparr>ticks := Suc (ticks s), txaddr := deviceAddress s, txbuf := [], ntx := Suc (ntx s),
               log := log s @ [Probe (deviceAddress s) (acks s (ntx s))]\<rparr>"
  from Suc.prems(1) have first: "clock s (ticks s) - lastWrite s \<le> wt" "acks s (ntx s) \<noteq> 0"
    by auto
  have unfold: "waitEEReady_loop wt s = waitEEReady_loop wt ?s3"
    using first by (subst waitEEReady_loop.simps) (simp add: wire_defs Let_def)
  have A: "\<forall>k<n. clock ?s3 (ticks ?s3 + k) - lastWrite ?s3 \<le> wt \<and> acks ?s3 (ntx ?s3 + k) \<noteq> 0"
    using Suc.prems(1) by auto
  have B: "wt < clock ?s3 (ticks ?s3 + n) - lastWrite ?s3 \<or> acks ?s3 (ntx ?s3 + n) = 0"
    using Suc.prems(2) by simp
  from Suc.IH[OF A B] obtain s' where s': "waitEEReady_loop wt ?s3 = Some s'"
    "log s' = log ?s3 @ probe_events ?s3 (if wt < clock ?s3 (ticks ?s3 + n) - lastWrite ?s3 then n else Suc n)"
    "ticks s' = ticks ?s3 + Suc n"
    "ntx s' = ntx ?s3 + (if wt < clock ?s3 (ticks ?s3 + n) - lastWrite ?s3 then n else Suc n)"
    by blast
  have pe: "\<And>m. probe_events s (Suc m) = Probe (deviceAddress s) (acks s (ntx s)) # probe_events ?s3 m"
    by (simp add: probe_events_Suc) (simp add: probe_events_def)
  show ?case
    using s' unfold by (auto simp: pe simp del: upt_Suc)
qed

subsection \<open>The deadline\<close>

lemma unat_waitTime:
  assumes "deadline s < 2 ^ 32"
  shows "unat (waitTime s) = deadline s"
proof -
  have "waitTime s = of_nat (deadline s)"
    by (simp add: waitTime_def I2C_WRITEDELAY_def deadline_def)
  then show ?thesis
    using assms by (simp add: unat_of_nat)
qed

lemma expired_waitTime:
  assumes "deadline s < 2 ^ 32"
  shows "expired s k \<longleftrightarrow> waitTime s < clock s (ticks s + k) - lastWrite s"
  by (simp add: expired_def elapsed_def word_less_nat_alt unat_waitTime[OF assms])

subsection \<open>Address bytes\<close>

lemma unat_memAddr: "unat (memAddr a) = unat a mod 65536"
proof -
  have "memAddr a = ucast (take_bit 16 a)"
    by (simp add: memAddr_def take_bit_eq_mask mask_eq_exp_minus_1)
  then show ?thesis
    by (simp add: unsigned_ucast_eq unsigned_take_bit_eq take_bit_eq_mod unat_mod)
qed

lemma addressBytes_value:
  "unat (ucast (drop_bit 8 m AND 0xFF) :: 8 word) * 256 + unat (ucast (m AND 0xFF) :: 8 word) = unat (m :: 16 word)"
proof -
  have m: "(0xFF :: 16 word) = mask 8" by (simp add: mask_eq_exp_minus_1)
  have lt: "unat m < 65536"
    using unsigned_less [of m] by simp
  have "unat (ucast (drop_bit 8 m AND 0xFF) :: 8 word) = unat m div 256 mod 256"
    unfolding m
    by (simp add: unsigned_ucast_eq unsigned_take_bit_eq unat_drop_bit_eq drop_bit_eq_div
        take_bit_eq_mod unat_mod unat_div flip: take_bit_eq_mask)
  with lt have 1: "unat (ucast (drop_bit 8 m AND 0xFF) :: 8 word) = unat m div 256"
    by simp
  have 2: "unat (ucast (m AND 0xFF) :: 8 word) = unat m mod 256"
    unfolding m
    by (simp add: unsigned_ucast_eq unsigned_take_bit_eq take_bit_eq_mod unat_mod flip: take_bit_eq_mask)
  show ?thesis
    by (simp add: 1 2)
qed


subsection \<open>The bench device\<close>

lemma clock_live_of_nat:
  assumes "clock s = (\<lambda>n. of_nat n)" and "waitTime s \<noteq> - 1"
  shows "clock_live s"
  unfolding clock_live_def
proof (intro allI)
  fix t and lw :: "32 word"
  let ?n = "unat (lw + waitTime s + 1 - of_nat t)"
  have "clock s (t + ?n) - lw = waitTime s + 1"
    by (simp add: assms(1))
  moreover have "waitTime s < waitTime s + 1"
    using assms(2) inc_less_eq_self_iff_eq [of "waitTime s"] by (simp add: not_le [symmetric])
  ultimately show "\<exists>n. waitTime s < clock s (t + n) - lw"
    by metis
qed

lemma clock_live_bench: "clock_live (bench ak r)"
  by (rule clock_live_of_nat) (simp_all add: bench_def waitTime_def I2C_WRITEDELAY_def)


subsection \<open>The chunked write loop\<close>

lemma emittedI: "log s' = log s @ evs \<Longrightarrow> emitted s s' = evs"
  by (simp add: emitted_def)

lemma page_events_polls:
  "list_all is_poll ps \<Longrightarrow> 0 < rem \<Longrightarrow>
     page_events n bs dev inc a buf rem (ps @ es) rv = page_events n bs dev inc a buf rem es rv"
proof (induction ps)
  case Nil
  then show ?case by simp
next
  case (Cons e ps)
  then show ?case by (cases e) simp_all
qed

lemma I2C_BUFFERSIZE_pos: "0 < I2C_BUFFERSIZE p"
  by (cases p) simp_all

lemma chunkSize_pos: "0 < ps \<Longrightarrow> 0 < bs \<Longrightarrow> 0 < rem \<Longrightarrow> 0 < chunkSize ps bs a rem"
  by (simp add: chunkSize_def)

lemma chunkSize_le: "chunkSize ps bs a rem \<le> rem"
  by (simp add: chunkSize_def)

lemma pageBlock_cnt:
  assumes "0 < ps" "ps < 256"
  shows "(let bytesUntilPageBoundary = (ps - unat a mod ps) mod 256;
              cnt0 = bs; cnt1 = (if cnt0 > n then n else cnt0);
              cnt = (if cnt1 > bytesUntilPageBoundary then bytesUntilPageBoundary else cnt1)
          in f cnt)
         = f (chunkSize ps bs a n)"
proof -
  have "ps - unat a mod ps < 256" using assms by simp
  then have "(if (if bs > n then n else bs) > (ps - unat a mod ps) mod 256
              then (ps - unat a mod ps) mod 256 else (if bs > n then n else bs))
             = chunkSize ps bs a n"
    by (auto simp: chunkSize_def min_def)
  then show ?thesis
    by (simp add: Let_def)
qed

lemma unat_sub_of_nat16:
  fixes len :: "16 word"
  assumes "k \<le> unat len"
  shows "unat (len - of_nat k) = unat len - k"
proof -
  have "unat len < 2 ^ 16" using unsigned_less [of len, where 'a = nat] by simp
  with assms have "k < 2 ^ 16" by simp
  then have k: "unat (of_nat k :: 16 word) = k" by (simp add: unat_of_nat)
  then have "(of_nat k :: 16 word) \<le> len" using assms by (simp add: word_le_nat_alt)
  then show ?thesis by (simp add: unat_sub k)
qed

lemma unat_sub_of_nat32:
  fixes len :: "32 word"
  assumes "k \<le> unat len"
  shows "unat (len - of_nat k) = unat len - k"
proof -
  have "unat len < 2 ^ 32" using unsigned_less [of len, where 'a = nat] by simp
  with assms have "k < 2 ^ 32" by simp
  then have k: "unat (of_nat k :: 32 word) = k" by (simp add: unat_of_nat)
  then have "(of_nat k :: 32 word) \<le> len" using assms by (simp add: word_le_nat_alt)
  then show ?thesis by (simp add: unat_sub k)
qed

lemma pageBlock_unfold:
  assumes "0 < len" "0 < pageSize s" "pageSize s < 256"
  shows "pageBlock a buf len inc s =
     WriteBlock a buf (chunkSize (pageSize s) (I2C_BUFFERSIZE (platform s)) a (unat len)) s \<bind>
       (\<lambda>(rv, s1). if rv \<noteq> 0 then Some (rv, s1)
          else pageBlock (a + of_nat (chunkSize (pageSize s) (I2C_BUFFERSIZE (platform s)) a (unat len)))
                 (if inc then ptr_add buf (chunkSize (pageSize s) (I2C_BUFFERSIZE (platform s)) a (unat len)) else buf)
                 (len - of_nat (chunkSize (pageSize s) (I2C_BUFFERSIZE (platform s)) a (unat len))) inc s1)"
  apply (subst pageBlock.simps)
  apply (simp only: pageBlock_cnt [OF assms(2,3)])
  apply (insert assms)
  apply simp
  done

lemma pageBlock_run:
  assumes "pageBlock a buf len inc s = Some (rv, s')" "0 < pageSize s" "pageSize s < 256"
  shows "same_config s s' \<and> nrx s' = nrx s \<and>
     (\<exists>evs. log s' = log s @ evs \<and>
        page_events (pageSize s) (I2C_BUFFERSIZE (platform s)) (deviceAddress s) inc a buf (unat len) evs rv)"
  using assms
proof (induction "unat len" arbitrary: a buf len s rule: less_induct)
  case less
  show ?case
  proof (cases "len = 0")
    case True
    with less.prems(1) have "rv = 0" "s' = s"
      by (simp_all add: pageBlock.simps)
    with True show ?thesis by simp
  next
    case False
    then have pos: "0 < len" "0 < unat len"
      by (simp_all add: word_greater_zero_iff unat_gt_0)
    let ?ps = "pageSize s" and ?bs = "I2C_BUFFERSIZE (platform s)" and ?dev = "deviceAddress s"
    let ?cnt = "chunkSize ?ps ?bs a (unat len)"
    have cnt: "0 < ?cnt" "?cnt \<le> unat len"
      using less.prems(2) pos(2) by (simp_all add: chunkSize_pos chunkSize_le I2C_BUFFERSIZE_pos)
    from less.prems(1) obtain rv1 s1 where w: "WriteBlock a buf ?cnt s = Some (rv1, s1)"
      and rest: "(if rv1 \<noteq> 0 then Some (rv1, s1)
                  else pageBlock (a + of_nat ?cnt) (if inc then ptr_add buf ?cnt else buf)
                         (len - of_nat ?cnt) inc s1) = Some (rv, s')"
      unfolding pageBlock_unfold[OF pos(1) less.prems(2,3)]
      by (auto split: bind_splits)
    from WriteBlock_run[OF w] obtain ps where 1: "same_config s s1" "nrx s1 = nrx s"
      "list_all is_poll ps"
      "log s1 = log s @ ps @ [Write a (controlByte s a) (addressBytes a @ peek buf ?cnt) rv1]"
      by blast
    show ?thesis
    proof (cases "rv1 = 0")
      case False
      with rest have "rv = rv1" "s' = s1" by simp_all
      with 1 False pos(2) show ?thesis
        by (auto simp: page_events_polls controlByte_def)
    next
      case True
      with rest have rec: "pageBlock (a + of_nat ?cnt) (if inc then ptr_add buf ?cnt else buf)
                         (len - of_nat ?cnt) inc s1 = Some (rv, s')" by simp
      have len': "unat (len - of_nat ?cnt) = unat len - ?cnt"
        using cnt(2) by (rule unat_sub_of_nat16)
      have cfg: "pageSize s1 = ?ps" "platform s1 = platform s" "deviceAddress s1 = ?dev"
        using 1(1) by (simp_all add: same_config_def)
      have "unat (len - of_nat ?cnt) < unat len" using len' cnt by simp
      from less.hyps[OF this rec] less.prems(2,3) cfg
      obtain evs where 2: "same_config s1 s'" "nrx s' = nrx s1" "log s' = log s1 @ evs"
        "page_events ?ps ?bs ?dev inc (a + of_nat ?cnt) (if inc then ptr_add buf ?cnt else buf)
           (unat len - ?cnt) evs rv"
        unfolding len' by auto
      have "same_config s s'" using 1(1) 2(1) by (rule same_config_trans)
      moreover have "nrx s' = nrx s" using 1(2) 2(2) by simp
      moreover have "log s' = log s @ (ps @ Write a (controlByte s a) (addressBytes a @ peek buf ?cnt) 0 # evs)"
        using 1(4) 2(3) True by simp
      moreover have "page_events ?ps ?bs ?dev inc a buf (unat len)
           (ps @ Write a (controlByte s a) (addressBytes a @ peek buf ?cnt) 0 # evs) rv"
        using 1(3) 2(4) pos(2) by (simp add: page_events_polls controlByte_def)
      ultimately show ?thesis by blast
    qed
  qed
qed

lemma pageBlock_terminates:
  assumes "clock_live s" "0 < pageSize s" "pageSize s < 256"
  shows "\<exists>rv s'. pageBlock a buf len inc s = Some (rv, s')"
  using assms
proof (induction "unat len" arbitrary: a buf len s rule: less_induct)
  case less
  show ?case
  proof (cases "len = 0")
    case True
    then show ?thesis by (simp add: pageBlock.simps)
  next
    case False
    then have pos: "0 < len" "0 < unat len"
      by (simp_all add: word_greater_zero_iff unat_gt_0)
    let ?cnt = "chunkSize (pageSize s) (I2C_BUFFERSIZE (platform s)) a (unat len)"
    have cnt: "0 < ?cnt" "?cnt \<le> unat len"
      using less.prems(2) pos(2) by (simp_all add: chunkSize_pos chunkSize_le I2C_BUFFERSIZE_pos)
    from clock_live_WriteBlock[OF less.prems(1)]
    obtain rv1 s1 where w: "WriteBlock a buf ?cnt s = Some (rv1, s1)" by blast
    from WriteBlock_run[OF w] have cfg: "same_config s s1" by blast
    then have live: "clock_live s1" using less.prems(1) by (rule same_config_live)
    have ps: "0 < pageSize s1" "pageSize s1 < 256"
      using cfg less.prems(2,3) by (simp_all add: same_config_def)
    have "unat (len - of_nat ?cnt) < unat len"
      using cnt by (simp add: unat_sub_of_nat16)
    from less.hyps[OF this live ps]
    obtain rv s' where "pageBlock (a + of_nat ?cnt) (if inc then ptr_add buf ?cnt else buf)
                         (len - of_nat ?cnt) inc s1 = Some (rv, s')" by blast
    with w show ?thesis
      unfolding pageBlock_unfold[OF pos(1) less.prems(2,3)] by simp
  qed
qed

subsection \<open>Chunks, pages and banks\<close>

lemma same_page:
  fixes a :: nat
  assumes "0 < ps" "0 < n" "n \<le> ps - a mod ps"
  shows "(a + n - 1) div ps = a div ps"
proof -
  have "a + n - 1 = (a mod ps + n - 1) + a div ps * ps"
    using assms(2) by simp
  moreover have "a mod ps + n - 1 < ps"
    using assms by simp
  ultimately show ?thesis
    by simp
qed

lemma same_bank:
  fixes a b :: nat
  assumes "ps dvd 65536" "b div ps = a div ps"
  shows "b div 65536 = a div 65536"
proof -
  from assms(1) obtain k where k: "65536 = ps * k" ..
  show ?thesis
    by (simp only: k div_mult2_eq assms(2))
qed

lemma length_addressBytes [simp]: "length (addressBytes a) = 2"
  by (simp add: addressBytes_def)

lemma length_peek [simp]: "length (peek p n) = n"
  by (simp add: peek_def)

lemma page_events_chunks_ok:
  assumes "page_events ps bs dev inc a buf rem evs rv" "0 < ps" "0 < bs"
  shows "chunks_ok ps bs rem evs"
  using assms(1)
proof (induction evs arbitrary: a buf rem)
  case Nil
  show ?case by simp
next
  case (Cons e evs)
  show ?case
  proof (cases e)
    case (Probe c x)
    with Cons.prems have "page_events ps bs dev inc a buf rem evs rv" by simp
    then show ?thesis unfolding Probe by (simp add: Cons.IH)
  next
    case (Write a' c p st)
    let ?n = "chunkSize ps bs a rem"
    from Cons.prems Write have rem: "0 < rem" and a': "a' = a"
      and p: "p = addressBytes a @ peek buf ?n" by simp_all
    have n: "0 < ?n" "?n \<le> min bs (min (ps - unat a mod ps) rem)"
      using assms(2,3) rem by (auto simp: chunkSize_def min_def)
    then have page: "unat a div ps = (unat a + ?n - 1) div ps"
      using same_page[of ps ?n "unat a"] assms(2) by simp
    have rest: "chunks_ok ps bs (rem - ?n) evs"
    proof (cases "st = 0")
      case True
      with Cons.prems Write
      have "page_events ps bs dev inc (a + of_nat ?n) (if inc then ptr_add buf ?n else buf)
              (rem - ?n) evs rv" by simp
      then show ?thesis by (rule Cons.IH)
    next
      case False
      with Cons.prems Write have "evs = []" by simp
      then show ?thesis by simp
    qed
    show ?thesis
      using n page rest by (simp add: Write a' p)
  next
    case (Select a' c p st)
    with Cons.prems show ?thesis by simp
  next
    case (Request a' c q ds)
    with Cons.prems show ?thesis by simp
  qed
qed

lemma page_events_within_bank:
  assumes "page_events ps bs dev inc a buf rem evs rv" "0 < ps" "0 < bs" "ps dvd 65536"
  shows "list_all within_bank evs"
  using assms(1)
proof (induction evs arbitrary: a buf rem)
  case Nil
  show ?case by simp
next
  case (Cons e evs)
  show ?case
  proof (cases e)
    case (Probe c x)
    with Cons.prems have "page_events ps bs dev inc a buf rem evs rv" by simp
    then show ?thesis unfolding Probe by (simp add: Cons.IH)
  next
    case (Write a' c p st)
    let ?n = "chunkSize ps bs a rem"
    from Cons.prems Write have rem: "0 < rem" and a': "a' = a"
      and p: "p = addressBytes a @ peek buf ?n" by simp_all
    have n: "0 < ?n" "?n \<le> ps - unat a mod ps"
      using assms(2,3) rem by (auto simp: chunkSize_def min_def)
    then have "(unat a + ?n - 1) div ps = unat a div ps"
      using same_page[of ps ?n "unat a"] assms(2) by simp
    then have bank: "(unat a + ?n - 1) div 65536 = unat a div 65536"
      using assms(4) by (rule same_bank[rotated])
    have rest: "list_all within_bank evs"
    proof (cases "st = 0")
      case True
      with Cons.prems Write
      have "page_events ps bs dev inc (a + of_nat ?n) (if inc then ptr_add buf ?n else buf)
              (rem - ?n) evs rv" by simp
      then show ?thesis by (rule Cons.IH)
    next
      case False
      with Cons.prems Write have "evs = []" by simp
      then show ?thesis by simp
    qed
    show ?thesis
      using bank rest by (simp add: Write a' p)
  next
    case (Select a' c p st)
    with Cons.prems show ?thesis by simp
  next
    case (Request a' c q ds)
    with Cons.prems show ?thesis by simp
  qed
qed

subsection \<open>Statuses\<close>

lemma first_failure_skip:
  assumes "first_failure rv evs" "write_statuses [e] = []"
  shows "first_failure rv (e # evs)"
proof -
  have ws: "\<And>xs. write_statuses (e # xs) = write_statuses xs"
    using assms(2) by (cases e) simp_all
  show ?thesis
    unfolding first_failure_def
  proof (intro conjI impI)
    show "rv = 0 \<longleftrightarrow> list_all (\<lambda>st. st = 0) (write_statuses (e # evs))"
      using assms(1) by (simp add: ws first_failure_def)
  next
    assume "rv \<noteq> 0"
    with assms(1) obtain pre a c p where "evs = pre @ [Write a c p rv]"
      "list_all (\<lambda>st. st = 0) (write_statuses pre)"
      unfolding first_failure_def by blast
    then have "e # evs = (e # pre) @ [Write a c p rv] \<and>
               list_all (\<lambda>st. st = 0) (write_statuses (e # pre))"
      by (simp add: ws)
    then show "\<exists>pre a c p. e # evs = pre @ [Write a c p rv] \<and>
               list_all (\<lambda>st. st = 0) (write_statuses pre)"
      by blast
  qed
qed

lemma first_failure_ok:
  assumes "first_failure rv evs"
  shows "first_failure rv (Write a c p 0 # evs)"
  unfolding first_failure_def
proof (intro conjI impI)
  show "rv = 0 \<longleftrightarrow> list_all (\<lambda>st. st = 0) (write_statuses (Write a c p 0 # evs))"
    using assms by (simp add: first_failure_def)
next
  assume "rv \<noteq> 0"
  with assms obtain pre a' c' p' where "evs = pre @ [Write a' c' p' rv]"
    "list_all (\<lambda>st. st = 0) (write_statuses pre)"
    unfolding first_failure_def by blast
  then have "Write a c p 0 # evs = (Write a c p 0 # pre) @ [Write a' c' p' rv] \<and>
             list_all (\<lambda>st. st = 0) (write_statuses (Write a c p 0 # pre))"
    by simp
  then show "\<exists>pre a' c' p'. Write a c p 0 # evs = pre @ [Write a' c' p' rv] \<and>
             list_all (\<lambda>st. st = 0) (write_statuses pre)"
    by blast
qed

lemma first_failure_fail:
  assumes "st \<noteq> 0"
  shows "first_failure st [Write a c p st]"
  unfolding first_failure_def
proof (intro conjI impI)
  show "st = 0 \<longleftrightarrow> list_all (\<lambda>st. st = 0) (write_statuses [Write a c p st])"
    using assms by simp
next
  have "[Write a c p st] = [] @ [Write a c p st] \<and> list_all (\<lambda>st. st = 0) (write_statuses [])"
    by simp
  then show "\<exists>pre a' c' p'. [Write a c p st] = pre @ [Write a' c' p' st] \<and>
             list_all (\<lambda>st. st = 0) (write_statuses pre)"
    by blast
qed

lemma page_events_first_failure:
  assumes "page_events ps bs dev inc a buf rem evs rv"
  shows "first_failure rv evs"
  using assms
proof (induction evs arbitrary: a buf rem)
  case Nil
  then show ?case by (simp add: first_failure_def)
next
  case (Cons e evs)
  show ?case
  proof (cases e)
    case (Probe c x)
    with Cons.prems have "page_events ps bs dev inc a buf rem evs rv" by simp
    from Cons.IH[OF this] show ?thesis
      unfolding Probe by (rule first_failure_skip) simp
  next
    case (Write a' c p st)
    show ?thesis
    proof (cases "st = 0")
      case True
      with Cons.prems Write
      have "page_events ps bs dev inc (a + of_nat (chunkSize ps bs a rem))
              (if inc then ptr_add buf (chunkSize ps bs a rem) else buf)
              (rem - chunkSize ps bs a rem) evs rv" by simp
      from Cons.IH[OF this] show ?thesis
        unfolding Write True by (rule first_failure_ok)
    next
      case False
      with Cons.prems Write have "evs = []" "rv = st" by simp_all
      with False show ?thesis
        unfolding Write by (simp add: first_failure_fail)
    qed
  next
    case (Select a' c p st)
    with Cons.prems show ?thesis by simp
  next
    case (Request a' c q ds)
    with Cons.prems show ?thesis by simp
  qed
qed

subsection \<open>Runs on the bench device\<close>

lemmas run_defs = pageBlock.simps WriteBlock_def ReadBlock_def waitEEReady_def waitEEReady_loop.simps
  beginTransmission_loop.simps beginTransmission_def micros_def wire_beginTransmission_def
  wire_write_def wire_endTransmission_def wire_requestFrom_def record_event_def waitTime_def
  I2C_WRITEDELAY_def peek_def ptr_add_def poke_def memAddr_def bench_def emitted_def upt_rec

lemma bench_pageBlock_run:
  "\<exists>s'. pageBlock 0xFFF0 (\<lambda>i. of_nat i) 40 True (bench (\<lambda>_. 0) (\<lambda>_. [])) = Some (0, s') \<and>
     emitted (bench (\<lambda>_. 0) (\<lambda>_. [])) s' =
       [Probe 0x50 0, Probe 0x50 0,
        Write 0xFFF0 0x50 [0xFF, 0xF0, 0, 1, 2, 3, 4, 5, 6, 7, 8, 9, 10, 11, 12, 13, 14, 15] 0,
        Probe 0x50 0, Probe 0x54 0,
        Write 0x10000 0x54 [0, 0, 16, 17, 18, 19, 20, 21, 22, 23, 24, 25, 26, 27, 28, 29, 30, 31,
          32, 33, 34, 35, 36, 37, 38, 39] 0]"
  by (simp add: run_defs)

lemma bench_pageBlock_fail:
  "\<exists>s'. pageBlock 0xFFF0 (\<lambda>i. of_nat i) 40 True (bench (\<lambda>k. if k = 5 then 3 else 0) (\<lambda>_. [])) = Some (3, s') \<and>
     emitted (bench (\<lambda>k. if k = 5 then 3 else 0) (\<lambda>_. [])) s' =
       [Probe 0x50 0, Probe 0x50 0,
        Write 0xFFF0 0x50 [0xFF, 0xF0, 0, 1, 2, 3, 4, 5, 6, 7, 8, 9, 10, 11, 12, 13, 14, 15] 0,
        Probe 0x50 0, Probe 0x54 0,
        Write 0x10000 0x54 [0, 0, 16, 17, 18, 19, 20, 21, 22, 23, 24, 25, 26, 27, 28, 29, 30, 31,
          32, 33, 34, 35, 36, 37, 38, 39] 3]"
  by (simp add: run_defs)

lemma writeBlock_length_truncated:
  "writeBlock a buf (n + 0x10000) s = writeBlock a buf n s"
proof -
  have "unat (ucast (n + 0x10000 :: 32 word) :: 16 word) = unat (ucast n :: 16 word)"
    by (simp add: unsigned_ucast_eq take_bit_eq_mod unat_word_ariths mod_mod_cancel)
  then have "(ucast (n + 0x10000 :: 32 word) :: 16 word) = ucast n"
    by (simp add: word_unat_eq_iff)
  then show ?thesis by (simp add: writeBlock_def)
qed

subsection \<open>The memory image of a write\<close>

lemma store_bytes_append:
  "store_bytes a (xs @ ys) m = store_bytes (a + of_nat (length xs)) ys (store_bytes a xs m)"
  by (induction xs arbitrary: a m) (simp_all add: ac_simps)

lemma peek_append:
  assumes "n \<le> k"
  shows "peek buf n @ peek (ptr_add buf n) (k - n) = peek buf k"
proof -
  have "map (\<lambda>i. buf (i + n)) [0..<k - n] = map buf (map (\<lambda>i. i + n) [0..<k - n])"
    by (simp add: comp_def)
  also have "\<dots> = map buf [n..<k]"
    using assms by (simp add: map_add_upt)
  finally have "peek buf n @ peek (ptr_add buf n) (k - n) = map buf ([0..<n] @ [n..<k])"
    by (simp add: peek_def ptr_add_def)
  also have "[0..<n] @ [n..<k] = [0..<k]"
    using assms by (metis le_add_diff_inverse upt_add_eq_append zero_le)
  finally show ?thesis by (simp add: peek_def)
qed

lemma page_events_replay:
  assumes "page_events ps bs dev True a buf rem evs 0"
  shows "replay evs m = store_bytes a (peek buf rem) m"
  using assms
proof (induction evs arbitrary: a buf rem m)
  case Nil
  then show ?case by (simp add: peek_def)
next
  case (Cons e evs)
  show ?case
  proof (cases e)
    case (Probe c x)
    with Cons.prems have "page_events ps bs dev True a buf rem evs 0" by simp
    then show ?thesis unfolding Probe by (simp add: Cons.IH)
  next
    case (Write a' c p st)
    let ?n = "chunkSize ps bs a rem"
    from Cons.prems Write have a': "a' = a" and p: "p = addressBytes a @ peek buf ?n"
      and st: "st = 0" by (simp_all split: if_splits)
    from Cons.prems Write st
    have "page_events ps bs dev True (a + of_nat ?n) (ptr_add buf ?n) (rem - ?n) evs 0" by simp
    from Cons.IH[OF this]
    have "replay evs (store_bytes a (peek buf ?n) m)
            = store_bytes (a + of_nat ?n) (peek (ptr_add buf ?n) (rem - ?n)) (store_bytes a (peek buf ?n) m)" .
    also have "\<dots> = store_bytes a (peek buf ?n @ peek (ptr_add buf ?n) (rem - ?n)) m"
      by (simp add: store_bytes_append)
    also have "peek buf ?n @ peek (ptr_add buf ?n) (rem - ?n) = peek buf rem"
      using chunkSize_le by (rule peek_append)
    finally show ?thesis
      by (simp add: Write a' p st)
  next
    case (Select a' c p st)
    with Cons.prems show ?thesis by simp
  next
    case (Request a' c q ds)
    with Cons.prems show ?thesis by simp
  qed
qed

text \<open>
  Within the 16 bits that reach \<^verbatim>\<open>_pageBlock\<close>, a successful \<^verbatim>\<open>writeBlock\<close>
  leaves the image of the single unchunked write.
\<close>

lemma writeBlock_image:
  assumes "writeBlock a buf n s = Some (0, s')" "unat n < 65536"
    and "0 < pageSize s" "pageSize s < 256"
  shows "replay (emitted s s') m = store_bytes a (peek buf (unat n)) m"
proof -
  have n: "unat (ucast n :: 16 word) = unat n"
    using assms(2) by (simp add: unsigned_ucast_eq take_bit_eq_mod)
  from assms(1) have "pageBlock a buf (ucast n) True s = Some (0, s')"
    by (simp add: writeBlock_def)
  from pageBlock_run[OF this assms(3,4)] obtain evs where evs: "log s' = log s @ evs"
    "page_events (pageSize s) (I2C_BUFFERSIZE (platform s)) (deviceAddress s) True a buf (unat n) evs 0"
    unfolding n by blast
  from page_events_replay[OF evs(2)] emittedI[OF evs(1)] show ?thesis by simp
qed

subsection \<open>The read loop\<close>

lemma polls_not_write: "list_all is_poll ps \<Longrightarrow> list_all (\<lambda>e. \<not> is_write e) ps"
proof (induction ps)
  case Nil
  show ?case by simp
next
  case (Cons e ps)
  then show ?case by (cases e) simp_all
qed

lemma read_within_mono:
  "read_within lo hi e \<Longrightarrow> lo' \<le> lo \<Longrightarrow> hi \<le> hi' \<Longrightarrow> read_within lo' hi' e"
  by (cases e) auto

lemma read_within_polls: "list_all is_poll ps \<Longrightarrow> list_all (read_within lo hi) ps"
proof (induction ps)
  case Nil
  show ?case by simp
next
  case (Cons e ps)
  then show ?case by (cases e) simp_all
qed

lemma received_append: "received (xs @ ys) = received xs + received ys"
proof (induction xs)
  case Nil
  show ?case by simp
next
  case (Cons e xs)
  then show ?case by (cases e) simp_all
qed

lemma received_polls: "list_all is_poll ps \<Longrightarrow> received ps = 0"
proof (induction ps)
  case Nil
  show ?case by simp
next
  case (Cons e ps)
  then show ?case by (cases e) simp_all
qed

lemma read_events_polls:
  "list_all is_poll ps \<Longrightarrow> 0 < rem \<Longrightarrow>
     read_events bs dev a rem (ps @ es) = read_events bs dev a rem es"
proof (induction ps)
  case Nil
  show ?case by simp
next
  case (Cons e ps)
  then show ?case by (cases e) simp_all
qed

lemma read_events_failed:
  assumes "st \<noteq> 0"
  shows "read_events bs dev a rem (Select a' c p st # es) =
     (0 < rem \<and> a' = a \<and> c = (if 0x10000 \<le> a then dev OR 0x04 else dev) \<and>
      p = addressBytes a \<and>
      read_events bs dev (a + of_nat (min bs rem)) (rem - min bs rem) es)"
proof (cases es)
  case Nil
  then show ?thesis using assms by simp
next
  case (Cons e es')
  then show ?thesis using assms by (cases e) auto
qed

lemma readBlock_loop_unfold:
  assumes "0 < len"
  shows "readBlock_loop a buf off len rv s =
     ReadBlock a buf off (min (I2C_BUFFERSIZE (platform s)) (unat len)) s \<bind>
       (\<lambda>(n, buf1, s1).
          readBlock_loop (a + of_nat (min (I2C_BUFFERSIZE (platform s)) (unat len))) buf1
            (off + min (I2C_BUFFERSIZE (platform s)) (unat len))
            (len - of_nat (min (I2C_BUFFERSIZE (platform s)) (unat len))) (rv + of_nat n) s1)"
proof -
  have "(if I2C_BUFFERSIZE (platform s) > unat len then unat len else I2C_BUFFERSIZE (platform s))
        = min (I2C_BUFFERSIZE (platform s)) (unat len)"
    by (simp add: min_def)
  then show ?thesis
    using assms by (subst readBlock_loop.simps) (simp add: Let_def)
qed

lemma readBlock_loop_run:
  assumes "readBlock_loop a buf off len rv s = Some (rv', buf', s')"
  shows "same_config s s' \<and> lastWrite s' = lastWrite s \<and>
     (\<exists>evs. log s' = log s @ evs \<and> list_all (\<lambda>e. \<not> is_write e) evs \<and>
        (unat a + unat len \<le> 2 ^ 32 \<longrightarrow> list_all (read_within (unat a) (unat a + unat len)) evs) \<and>
        rv' = rv + of_nat (received evs) \<and>
        read_events (I2C_BUFFERSIZE (platform s)) (deviceAddress s) a (unat len) evs)"
  using assms
proof (induction "unat len" arbitrary: a buf off len rv s rule: less_induct)
  case less
  show ?case
  proof (cases "len = 0")
    case True
    with less.prems(1) have "rv' = rv" "s' = s"
      by (simp_all add: readBlock_loop.simps)
    with True show ?thesis by simp
  next
    case False
    then have pos: "0 < len" "0 < unat len"
      by (simp_all add: word_greater_zero_iff unat_gt_0)
    let ?cnt = "min (I2C_BUFFERSIZE (platform s)) (unat len)"
    have cnt: "0 < ?cnt" "?cnt \<le> unat len"
      using pos(2) by (simp_all add: I2C_BUFFERSIZE_pos)
    from less.prems(1) obtain n buf1 s1 where r: "ReadBlock a buf off ?cnt s = Some (n, buf1, s1)"
      and rec: "readBlock_loop (a + of_nat ?cnt) buf1 (off + ?cnt) (len - of_nat ?cnt)
                 (rv + of_nat n) s1 = Some (rv', buf', s')"
      unfolding readBlock_loop_unfold[OF pos(1)]
      by (auto split: bind_splits)
    from ReadBlock_run[OF r] obtain ps st ds where 1: "same_config s s1" "lastWrite s1 = lastWrite s"
      "list_all is_poll ps" "length ds \<le> ?cnt"
      "log s1 = log s @ ps @ Select a (controlByte s a) (addressBytes a) st #
                   (if st = 0 then [Request a (controlByte s a) ?cnt ds] else [])"
      "n = (if st = 0 then length ds else 0)"
      by blast
    let ?evs1 = "ps @ Select a (controlByte s a) (addressBytes a) st #
                   (if st = 0 then [Request a (controlByte s a) ?cnt ds] else [])"
    have w1: "list_all (read_within (unat a) (unat a + unat len)) ?evs1"
      using 1(3,4) cnt pos(2) by (simp add: read_within_polls)
    have nw1: "list_all (\<lambda>e. \<not> is_write e) ?evs1"
      using 1(3) by (simp add: polls_not_write)
    have n1: "n = received ?evs1"
      using 1(3,6) by (simp add: received_append received_polls)
    have len': "unat (len - of_nat ?cnt) = unat len - ?cnt"
      using cnt(2) by (rule unat_sub_of_nat32)
    have dec: "unat (len - of_nat ?cnt) < unat len" using len' cnt by simp
    from less.hyps[OF dec rec] obtain evs where 2: "same_config s1 s'"
      "lastWrite s' = lastWrite s1" "log s' = log s1 @ evs" "list_all (\<lambda>e. \<not> is_write e) evs"
      "unat (a + of_nat ?cnt) + (unat len - ?cnt) \<le> 2 ^ 32 \<longrightarrow>
         list_all (read_within (unat (a + of_nat ?cnt)) (unat (a + of_nat ?cnt) + (unat len - ?cnt))) evs"
      "rv' = rv + of_nat n + of_nat (received evs)"
      "read_events (I2C_BUFFERSIZE (platform s1)) (deviceAddress s1) (a + of_nat ?cnt)
         (unat len - ?cnt) evs"
      unfolding len' by blast
    have cfg1: "platform s1 = platform s" "deviceAddress s1 = deviceAddress s"
      using 1(1) by (simp_all add: same_config_def)
    have "read_events (I2C_BUFFERSIZE (platform s)) (deviceAddress s) a (unat len)
            (Select a (controlByte s a) (addressBytes a) st #
               (if st = 0 then [Request a (controlByte s a) ?cnt ds] else []) @ evs)"
    proof (cases "st = 0")
      case True
      then show ?thesis
        using pos(2) 1(4) 2(7) by (simp add: controlByte_def cfg1)
    next
      case False
      then show ?thesis
        using pos(2) 2(7) by (simp add: read_events_failed controlByte_def cfg1)
    qed
    then have re: "read_events (I2C_BUFFERSIZE (platform s)) (deviceAddress s) a (unat len) (?evs1 @ evs)"
      using 1(3) pos(2) by (simp add: read_events_polls)
    have range: "list_all (read_within (unat a) (unat a + unat len)) evs"
      if le: "unat a + unat len \<le> 2 ^ 32"
    proof (cases "len - of_nat ?cnt = 0")
      case True
      with rec have "s' = s1" by (simp add: readBlock_loop.simps)
      with 2(3) show ?thesis by simp
    next
      case False
      then have "unat (len - of_nat ?cnt) \<noteq> 0"
        by (simp add: unsigned_eq_0_iff)
      then have "0 < unat len - ?cnt"
        unfolding len' by simp
      then have lt: "unat a + ?cnt < 2 ^ 32"
        using le by simp
      then have a': "unat (a + of_nat ?cnt) = unat a + ?cnt"
        by (simp add: unat_word_ariths unat_of_nat)
      have "unat (a + of_nat ?cnt) + (unat len - ?cnt) \<le> 2 ^ 32"
        using le cnt(2) by (simp add: a')
      with 2(5) have "list_all (read_within (unat a + ?cnt) (unat a + ?cnt + (unat len - ?cnt))) evs"
        unfolding a' by blast
      then show ?thesis
        using cnt(2) by (auto simp: list_all_iff intro: read_within_mono)
    qed
    have "log s' = log s @ (?evs1 @ evs)" using 1(5) 2(3) by simp
    moreover have "list_all (\<lambda>e. \<not> is_write e) (?evs1 @ evs)"
      using nw1 2(4) by simp
    moreover have "unat a + unat len \<le> 2 ^ 32 \<longrightarrow>
        list_all (read_within (unat a) (unat a + unat len)) (?evs1 @ evs)"
      using w1 range by simp
    moreover have "rv' = rv + of_nat (received (?evs1 @ evs))"
      using 2(6) n1 by (simp add: received_append)
    moreover have "same_config s s'" using 1(1) 2(1) by (rule same_config_trans)
    moreover have "lastWrite s' = lastWrite s" using 1(2) 2(2) by simp
    ultimately show ?thesis using re by blast
  qed
qed

lemma readBlock_loop_terminates:
  assumes "clock_live s"
  shows "\<exists>rv' buf' s'. readBlock_loop a buf off len rv s = Some (rv', buf', s')"
  using assms
proof (induction "unat len" arbitrary: a buf off len rv s rule: less_induct)
  case less
  show ?case
  proof (cases "len = 0")
    case True
    then show ?thesis by (simp add: readBlock_loop.simps)
  next
    case False
    then have pos: "0 < len" "0 < unat len"
      by (simp_all add: word_greater_zero_iff unat_gt_0)
    let ?cnt = "min (I2C_BUFFERSIZE (platform s)) (unat len)"
    have cnt: "0 < ?cnt" "?cnt \<le> unat len"
      using pos(2) by (simp_all add: I2C_BUFFERSIZE_pos)
    from clock_live_ReadBlock[OF less.prems]
    obtain n buf1 s1 where r: "ReadBlock a buf off ?cnt s = Some (n, buf1, s1)" by blast
    from ReadBlock_run[OF r] have "same_config s s1" by blast
    then have live: "clock_live s1" using less.prems by (rule same_config_live)
    have "unat (len - of_nat ?cnt) < unat len"
      using cnt by (simp add: unat_sub_of_nat32)
    from less.hyps[OF this live]
    obtain rv' buf' s' where "readBlock_loop (a + of_nat ?cnt) buf1 (off + ?cnt) (len - of_nat ?cnt)
                 (rv + of_nat n) s1 = Some (rv', buf', s')" by blast
    with r show ?thesis
      unfolding readBlock_loop_unfold[OF pos(1)] by simp
  qed
qed

lemma readBlock_nosplit:
  assumes "\<not> (a < 0x10000 \<and> 0x10000 < a + n)"
  shows "readBlock a buf off n s = readBlock_loop a buf off n 0 s"
proof -
  from assms have "(a < 0x10000 \<and> 0x10000 < a + n) = False" by simp
  then show ?thesis
    by (subst readBlock.simps) (simp only: if_False)
qed

lemma readBlock_split:
  assumes "a < 0x10000" "0x10000 < a + n"
  shows "readBlock a buf off n s =
     readBlock_loop a buf off (0x10000 - a) 0 s \<bind> (\<lambda>(rv1, buf1, s1).
     readBlock_loop 0x10000 buf1 (off + unat (0x10000 - a)) (n - (0x10000 - a)) 0 s1 \<bind>
       (\<lambda>(rv2, buf2, s2). Some (rv1 + rv2, buf2, s2)))"
proof -
  have 1: "\<And>buf off s. readBlock a buf off (0x10000 - a) s = readBlock_loop a buf off (0x10000 - a) 0 s"
    by (rule readBlock_nosplit) simp
  have 2: "\<And>buf off m s. readBlock 0x10000 buf off m s = readBlock_loop 0x10000 buf off m 0 s"
    by (rule readBlock_nosplit) simp
  show ?thesis
    using assms by (subst readBlock.simps) (simp add: 1 2 Let_def)
qed

lemma split_lengths:
  fixes a n :: "32 word"
  assumes "a < 0x10000" "0x10000 < a + n"
  shows "unat a + unat (0x10000 - a) = 0x10000"
    and "0x10000 + unat (n - (0x10000 - a)) = unat a + unat n"
    and "unat a + unat n < 2 ^ 32"
proof -
  have a: "unat a < 65536" using assms(1) by (simp add: word_less_nat_alt)
  show nowrap: "unat a + unat n < 2 ^ 32"
  proof (rule ccontr)
    assume "\<not> unat a + unat n < 2 ^ 32"
    then have ge: "2 ^ 32 \<le> unat a + unat n" by simp
    have "unat n < 2 ^ 32" using unsigned_less [of n, where 'a = nat] by simp
    with ge a have "unat (a + n) = unat a + unat n - 2 ^ 32"
      by (simp add: unat_word_ariths mod_if)
    with a \<open>unat n < 2 ^ 32\<close> have "unat (a + n) < 65536" by simp
    with assms(2) show False by (simp add: word_less_nat_alt)
  qed
  then have sum: "unat (a + n) = unat a + unat n"
    by (simp add: unat_word_ariths)
  have le: "a \<le> 0x10000" using assms(1) by simp
  show 1: "unat a + unat (0x10000 - a) = 0x10000"
    using a by (simp add: unat_sub [OF le])
  have "n - (0x10000 - a) = a + n - 0x10000" by simp
  then have e: "unat (n - (0x10000 - a)) = unat (a + n - 0x10000)" by (simp only:)
  have d: "unat (a + n - 0x10000) = unat (a + n) - 65536"
    using assms(2) by (simp add: unat_sub word_le_nat_alt word_less_nat_alt)
  have g: "65536 < unat (a + n)" using assms(2) by (simp add: word_less_nat_alt)
  show "0x10000 + unat (n - (0x10000 - a)) = unat a + unat n"
    unfolding e d using g sum by simp
qed

lemma read_within_low: "read_within lo hi e \<Longrightarrow> hi \<le> 0x10000 \<Longrightarrow> one_bank e"
  by (cases e) auto

lemma read_within_high: "read_within lo hi e \<Longrightarrow> 0x10000 \<le> lo \<Longrightarrow> one_bank e"
  by (cases e) auto

lemma readBlock_run:
  assumes "readBlock a buf off n s = Some (rv, buf', s')"
  shows "same_config s s' \<and> lastWrite s' = lastWrite s \<and>
     (\<exists>evs. log s' = log s @ evs \<and> list_all (\<lambda>e. \<not> is_write e) evs \<and>
        rv = of_nat (received evs) \<and>
        (if a < 0x10000 \<and> 0x10000 < a + n
         then \<exists>evs1 evs2. evs = evs1 @ evs2 \<and>
                read_events (I2C_BUFFERSIZE (platform s)) (deviceAddress s) a
                  (0x10000 - unat a) evs1 \<and>
                read_events (I2C_BUFFERSIZE (platform s)) (deviceAddress s) 0x10000
                  (unat a + unat n - 0x10000) evs2
         else read_events (I2C_BUFFERSIZE (platform s)) (deviceAddress s) a (unat n) evs) \<and>
        (unat a + unat n < 2 ^ 32 \<or> 0x10000 \<le> unat a \<and> unat a + unat n \<le> 2 ^ 32
           \<longrightarrow> list_all one_bank evs))"
proof (cases "a < 0x10000 \<and> 0x10000 < a + n")
  case True
  then have c: "a < 0x10000" "0x10000 < a + n" by simp_all
  note L = split_lengths[OF c]
  have len1: "unat (0x10000 - a) = 0x10000 - unat a" using L(1) by simp
  have len2: "unat (n - (0x10000 - a)) = unat a + unat n - 0x10000" using L(2) by simp
  from assms obtain rv1 buf1 s1 rv2 where
    r1: "readBlock_loop a buf off (0x10000 - a) 0 s = Some (rv1, buf1, s1)" and
    r2: "readBlock_loop 0x10000 buf1 (off + unat (0x10000 - a)) (n - (0x10000 - a)) 0 s1 = Some (rv2, buf', s')" and
    rv: "rv = rv1 + rv2"
    unfolding readBlock_split[OF c] by (auto split: bind_splits)
  from readBlock_loop_run[OF r1] L(1) obtain evs1 where 1: "same_config s s1"
    "lastWrite s1 = lastWrite s" "log s1 = log s @ evs1" "list_all (\<lambda>e. \<not> is_write e) evs1"
    "list_all (read_within (unat a) 0x10000) evs1"
    "rv1 = of_nat (received evs1)"
    "read_events (I2C_BUFFERSIZE (platform s)) (deviceAddress s) a (0x10000 - unat a) evs1"
    unfolding len1 by auto
  have cfg1: "platform s1 = platform s" "deviceAddress s1 = deviceAddress s"
    using 1(1) by (simp_all add: same_config_def)
  have "unat (0x10000 :: 32 word) + unat (n - (0x10000 - a)) \<le> 2 ^ 32"
    using L(2,3) by simp
  with readBlock_loop_run[OF r2] obtain evs2 where 2: "same_config s1 s'"
    "lastWrite s' = lastWrite s1" "log s' = log s1 @ evs2" "list_all (\<lambda>e. \<not> is_write e) evs2"
    "list_all (read_within 0x10000 (0x10000 + unat (n - (0x10000 - a)))) evs2"
    "rv2 = of_nat (received evs2)"
    "read_events (I2C_BUFFERSIZE (platform s)) (deviceAddress s) 0x10000
       (unat a + unat n - 0x10000) evs2"
    unfolding len2 cfg1 by auto
  have "list_all one_bank evs1"
    using 1(5) by (auto simp: list_all_iff intro: read_within_low)
  moreover have "list_all one_bank evs2"
    using 2(5) by (auto simp: list_all_iff intro: read_within_high)
  ultimately have "list_all one_bank (evs1 @ evs2)" by simp
  moreover have "log s' = log s @ (evs1 @ evs2)" using 1(3) 2(3) by simp
  moreover have "list_all (\<lambda>e. \<not> is_write e) (evs1 @ evs2)" using 1(4) 2(4) by simp
  moreover have "rv = of_nat (received (evs1 @ evs2))"
    using rv 1(6) 2(6) by (simp add: received_append)
  moreover have "same_config s s'" using 1(1) 2(1) by (rule same_config_trans)
  moreover have "lastWrite s' = lastWrite s" using 1(2) 2(2) by simp
  ultimately show ?thesis using True 1(7) 2(7) by auto
next
  case False
  with assms have r: "readBlock_loop a buf off n 0 s = Some (rv, buf', s')"
    by (simp add: readBlock_nosplit)
  from readBlock_loop_run[OF r] obtain evs where 1: "same_config s s'"
    "lastWrite s' = lastWrite s" "log s' = log s @ evs" "list_all (\<lambda>e. \<not> is_write e) evs"
    "unat a + unat n \<le> 2 ^ 32 \<longrightarrow> list_all (read_within (unat a) (unat a + unat n)) evs"
    "rv = of_nat (received evs)"
    "read_events (I2C_BUFFERSIZE (platform s)) (deviceAddress s) a (unat n) evs"
    by auto
  have "list_all one_bank evs"
    if h: "unat a + unat n < 2 ^ 32 \<or> 0x10000 \<le> unat a \<and> unat a + unat n \<le> 2 ^ 32"
  proof -
    from h 1(5) have w: "list_all (read_within (unat a) (unat a + unat n)) evs" by auto
    show ?thesis
    proof (cases "0x10000 \<le> unat a")
      case True
      with w show ?thesis by (auto simp: list_all_iff intro: read_within_high)
    next
      case low: False
      with h have nowrap: "unat a + unat n < 2 ^ 32" by simp
      then have sum: "unat (a + n) = unat a + unat n"
        by (simp add: unat_word_ariths)
      from False low have "unat a + unat n \<le> 0x10000"
        by (auto simp: word_less_nat_alt sum)
      with w show ?thesis by (auto simp: list_all_iff intro: read_within_low)
    qed
  qed
  with 1 False show ?thesis by auto
qed

lemma readBlock_terminates:
  assumes "clock_live s"
  shows "\<exists>rv buf' s'. readBlock a buf off n s = Some (rv, buf', s')"
proof (cases "a < 0x10000 \<and> 0x10000 < a + n")
  case True
  then have c: "a < 0x10000" "0x10000 < a + n" by simp_all
  from readBlock_loop_terminates[OF assms] obtain rv1 buf1 s1 where
    r1: "readBlock_loop a buf off (0x10000 - a) 0 s = Some (rv1, buf1, s1)" by blast
  from readBlock_loop_run[OF r1] have "same_config s s1" by blast
  then have "clock_live s1" using assms by (rule same_config_live)
  from readBlock_loop_terminates[OF this] obtain rv2 buf2 s2 where
    "readBlock_loop 0x10000 buf1 (off + unat (0x10000 - a)) (n - (0x10000 - a)) 0 s1 = Some (rv2, buf2, s2)"
    by blast
  with r1 show ?thesis
    unfolding readBlock_split[OF c] by simp
next
  case False
  then show ?thesis
    using readBlock_loop_terminates[OF assms] by (simp add: readBlock_nosplit)
qed

lemma split_condition:
  fixes a n :: "32 word"
  shows "(a < 0x10000 \<and> 0x10000 < a + n) \<longleftrightarrow>
     (unat a < 0x10000 \<and> 0x10000 < unat a + unat n \<and> unat a + unat n < 2 ^ 32)"
proof
  assume c: "a < 0x10000 \<and> 0x10000 < a + n"
  then have nw: "unat a + unat n < 2 ^ 32"
    using split_lengths(3) by blast
  then have "unat (a + n) = unat a + unat n"
    by (simp add: unat_word_ariths)
  with c nw show "unat a < 0x10000 \<and> 0x10000 < unat a + unat n \<and> unat a + unat n < 2 ^ 32"
    by (simp add: word_less_nat_alt)
next
  assume c: "unat a < 0x10000 \<and> 0x10000 < unat a + unat n \<and> unat a + unat n < 2 ^ 32"
  then have "unat (a + n) = unat a + unat n"
    by (simp add: unat_word_ariths)
  with c show "a < 0x10000 \<and> 0x10000 < a + n"
    by (simp add: word_less_nat_alt)
qed

lemma bench_readBlock_run:
  "\<exists>buf' s'. readBlock 0xFFD0 (\<lambda>_. 0) 0 88 (bench (\<lambda>_. 0) (\<lambda>k. replicate 30 (of_nat k + 1))) = Some (88, buf', s') \<and>
     emitted (bench (\<lambda>_. 0) (\<lambda>k. replicate 30 (of_nat k + 1))) s' =
       [Probe 0x50 0, Probe 0x50 0, Select 0xFFD0 0x50 [0xFF, 0xD0] 0,
        Request 0xFFD0 0x50 30 (replicate 30 1),
        Probe 0x50 0, Probe 0x50 0, Select 0xFFEE 0x50 [0xFF, 0xEE] 0,
        Request 0xFFEE 0x50 18 (replicate 18 2),
        Probe 0x50 0, Probe 0x54 0, Select 0x10000 0x54 [0, 0] 0,
        Request 0x10000 0x54 30 (replicate 30 3),
        Probe 0x50 0, Probe 0x54 0, Select 0x1001E 0x54 [0, 0x1E] 0,
        Request 0x1001E 0x54 10 (replicate 10 4)]"
  by (simp add: readBlock_split readBlock_loop.simps run_defs Let_def)

text \<open>
  A length that carries the 32-bit sum past \<open>2\<^sup>3\<^sup>2\<close> is not split: from
  \<^verbatim>\<open>0xFFFF\<close> the length \<^verbatim>\<open>0xFFFFFFFF\<close> gives the sum \<^verbatim>\<open>0xFFFE\<close>, and the
  first round of the one loop asks for a whole chunk at \<^verbatim>\<open>0xFFFF\<close>. Such a request
  names a destination of 4 GiB.
\<close>

lemma readBlock_wrapped_sum:
  "readBlock 0xFFFF buf off 0xFFFFFFFF s =
     ReadBlock 0xFFFF buf off (I2C_BUFFERSIZE (platform s)) s \<bind>
       (\<lambda>(n, buf1, s1).
          readBlock_loop (0xFFFF + of_nat (I2C_BUFFERSIZE (platform s))) buf1
            (off + I2C_BUFFERSIZE (platform s))
            (0xFFFFFFFF - of_nat (I2C_BUFFERSIZE (platform s))) (0 + of_nat n) s1)"
proof -
  have 1: "readBlock 0xFFFF buf off 0xFFFFFFFF s = readBlock_loop 0xFFFF buf off 0xFFFFFFFF 0 s"
    by (rule readBlock_nosplit) simp
  have 2: "min (I2C_BUFFERSIZE (platform s)) (unat (0xFFFFFFFF :: 32 word))
           = I2C_BUFFERSIZE (platform s)"
    by (cases "platform s") simp_all
  have "(0 :: 32 word) < 0xFFFFFFFF" by simp
  from readBlock_loop_unfold[OF this, of "0xFFFF" buf off 0 s]
  show ?thesis unfolding 1 2 .
qed

subsection \<open>Comparison and verification\<close>

lemma memcmp_list_eq_0:
  "length xs = length ys \<Longrightarrow> memcmp_list xs ys = 0 \<longleftrightarrow> xs = ys"
proof (induction xs ys rule: list_induct2)
  case Nil
  show ?case by simp
next
  case (Cons x xs y ys)
  then show ?case by (simp add: word_uint_eq_iff)
qed

lemma memcmp_eq_0: "memcmp p q n = 0 \<longleftrightarrow> (\<forall>i<n. p i = q i)"
  by (auto simp: memcmp_def memcmp_list_eq_0 peek_def)


lemma bench_writeBlockVerify_match:
  "\<exists>s'. writeBlockVerify 0x100 (\<lambda>i. of_nat i + 7) 2 (\<lambda>_. 0) (bench (\<lambda>_. 0) (\<lambda>_. [7, 8, 9])) = Some (True, s') \<and>
     emitted (bench (\<lambda>_. 0) (\<lambda>_. [7, 8, 9])) s' =
       [Probe 0x50 0, Probe 0x50 0, Write 0x100 0x50 [1, 0, 7, 8] 0,
        Probe 0x50 0, Probe 0x50 0, Select 0x100 0x50 [1, 0] 0, Request 0x100 0x50 2 [7, 8]]"
  by (simp add: writeBlockVerify_def writeBlock_def readBlock_nosplit readBlock_loop.simps
      memcmp_def run_defs Let_def)


subsection \<open>The update loop\<close>

lemma page_events_no_reads:
  assumes "page_events ps bs dev inc a buf rem evs rv"
  shows "received evs = 0 \<and> list_all read_complete evs \<and> list_all (read_banked m) evs"
  using assms
proof (induction evs arbitrary: a buf rem)
  case Nil
  show ?case by simp
next
  case (Cons e evs)
  show ?case
  proof (cases e)
    case (Probe c x)
    with Cons.prems have "page_events ps bs dev inc a buf rem evs rv" by simp
    then show ?thesis unfolding Probe by (simp add: Cons.IH)
  next
    case (Write a' c p st)
    let ?n = "chunkSize ps bs a rem"
    show ?thesis
    proof (cases "st = 0")
      case True
      with Cons.prems Write
      have "page_events ps bs dev inc (a + of_nat ?n) (if inc then ptr_add buf ?n else buf)
              (rem - ?n) evs rv" by simp
      then show ?thesis unfolding Write by (simp add: Cons.IH)
    next
      case False
      with Cons.prems Write have "evs = []" by simp
      then show ?thesis unfolding Write by simp
    qed
  next
    case (Select a' c p st)
    with Cons.prems show ?thesis by simp
  next
    case (Request a' c q ds)
    with Cons.prems show ?thesis by simp
  qed
qed

lemma read_complete_polls: "list_all is_poll ps \<Longrightarrow> list_all read_complete ps"
proof (induction ps)
  case Nil
  show ?case by simp
next
  case (Cons e ps)
  then show ?case by (cases e) simp_all
qed

lemma read_banked_polls: "list_all is_poll ps \<Longrightarrow> list_all (read_banked m) ps"
proof (induction ps)
  case Nil
  show ?case by simp
next
  case (Cons e ps)
  then show ?case by (cases e) simp_all
qed

lemma read_banked_complete: "read_banked m e \<Longrightarrow> read_complete e"
  by (cases e) auto

text \<open>Within one bank the device reads where the logical addresses point.\<close>

lemma unat_low16:
  fixes w :: "32 word"
  shows "unat (w AND 0xFFFF) = unat w mod 65536"
proof -
  have "w AND 0xFFFF = take_bit 16 w"
    by (simp add: take_bit_eq_mask mask_eq_exp_minus_1)
  then show ?thesis
    by (simp add: unsigned_take_bit_eq take_bit_eq_mod unat_mod)
qed

lemma bank_address_linear:
  assumes "in_one_bank a n" "j < n"
  shows "bank_address a j = a + of_nat j"
proof -
  from assms have "unat a + j < 2 ^ 32"
    by (auto simp: in_one_bank_def)
  then have sum: "unat (a + of_nat j) = unat a + j"
    by (simp add: unat_word_ariths unat_of_nat)
  show ?thesis
  proof (cases "0x10000 \<le> a")
    case True
    then have "0x10000 \<le> unat a" by (simp add: word_le_nat_alt)
    with assms have r: "65536 \<le> unat a + j" "unat a + j < 131072"
      by (auto simp: in_one_bank_def)
    then have "(unat a + j) mod 65536 = unat a + j - 65536"
      by (simp add: le_mod_geq)
    then have lo: "unat ((a + of_nat j) AND 0xFFFF) = unat a + j - 65536"
      by (simp only: unat_low16 sum)
    have add: "unat (0x10000 + w) = (65536 + unat w) mod 4294967296" for w :: "32 word"
      by (simp add: unat_word_ariths)
    have "unat (0x10000 + ((a + of_nat j) AND 0xFFFF)) = unat (a + of_nat j)"
      unfolding add lo sum using r by simp
    with True show ?thesis
      by (simp add: bank_address_def word_unat_eq_iff)
  next
    case False
    then have "unat a < 0x10000" by (simp add: word_le_nat_alt)
    with assms have "unat a + j < 65536"
      by (auto simp: in_one_bank_def)
    then have "unat ((a + of_nat j) AND 0xFFFF) = unat (a + of_nat j)"
      by (simp only: unat_low16 sum) simp
    with False show ?thesis
      by (simp add: bank_address_def word_unat_eq_iff)
  qed
qed

lemma in_one_bank_mono: "in_one_bank a n \<Longrightarrow> k \<le> n \<Longrightarrow> in_one_bank a k"
  by (auto simp: in_one_bank_def)

lemma in_one_bank_step:
  assumes "in_one_bank a n" "k \<le> n"
  shows "in_one_bank (a + of_nat k) (n - k)"
proof -
  from assms have "unat a + k < 2 ^ 32"
    by (auto simp: in_one_bank_def)
  then have "unat (a + of_nat k) = unat a + k"
    by (simp add: unat_word_ariths unat_of_nat)
  with assms show ?thesis
    by (auto simp: in_one_bank_def)
qed

lemma updateBlock_loop_unfold:
  assumes "0 < len"
  shows "updateBlock_loop a buf len rv stack s =
     ReadBlock a stack 0 (min (I2C_BUFFERSIZE (platform s)) (unat len)) s \<bind>
       (\<lambda>(n, rbuf, s1).
          (if memcmp buf rbuf (min (I2C_BUFFERSIZE (platform s)) (unat len)) \<noteq> 0
           then pageBlock a buf (of_nat (min (I2C_BUFFERSIZE (platform s)) (unat len))) True s1 \<bind>
                  (\<lambda>(st, s'). Some s')
           else Some s1) \<bind>
          (\<lambda>s2. updateBlock_loop (a + of_nat (min (I2C_BUFFERSIZE (platform s)) (unat len)))
                  (ptr_add buf (min (I2C_BUFFERSIZE (platform s)) (unat len)))
                  (len - of_nat (min (I2C_BUFFERSIZE (platform s)) (unat len))) (rv + of_nat n) rbuf s2))"
proof -
  have cnt: "\<And>f. (let cnt0 = I2C_BUFFERSIZE (platform s);
                     cnt = (if cnt0 > unat len then unat len else cnt0) in f cnt)
                 = f (min (I2C_BUFFERSIZE (platform s)) (unat len))"
    by (simp add: Let_def min_def)
  show ?thesis
    apply (subst updateBlock_loop.simps)
    apply (simp only: cnt)
    apply (simp add: assms)
    done
qed

text \<open>One round of the update loop: the read, then the write when the bytes differ.\<close>

lemma update_round:
  assumes r: "ReadBlock a stack 0 cnt s = Some (n, rbuf, s1)"
    and w: "(if memcmp buf rbuf cnt \<noteq> 0
             then pageBlock a buf (of_nat cnt) True s1 \<bind> (\<lambda>(st, s'). Some s')
             else Some s1) = Some s2"
    and ps: "0 < pageSize s" "pageSize s < 256"
    and cnt: "0 < cnt" "cnt \<le> I2C_BUFFERSIZE (platform s)"
  shows "same_config s s2 \<and>
     (\<exists>evs. log s2 = log s @ evs \<and> of_nat n = (of_nat (received evs) :: 32 word) \<and>
        (list_all read_complete evs \<longrightarrow> received evs = cnt) \<and>
        ((\<forall>i<cnt. m (a + of_nat i) = buf i) \<and> in_one_bank a cnt \<and> list_all (read_banked m) evs
           \<longrightarrow> list_all (\<lambda>e. \<not> is_write e) evs))"
proof -
  from ReadBlock_run[OF r] obtain ps0 st ds where 1: "same_config s s1"
    "list_all is_poll ps0" "length ds \<le> cnt"
    "log s1 = log s @ ps0 @ Select a (controlByte s a) (addressBytes a) st #
                 (if st = 0 then [Request a (controlByte s a) cnt ds] else [])"
    "n = (if st = 0 then length ds else 0)"
    "rbuf = (if st = 0 then poke stack 0 ds else stack)"
    by blast
  let ?evs1 = "ps0 @ Select a (controlByte s a) (addressBytes a) st #
                 (if st = 0 then [Request a (controlByte s a) cnt ds] else [])"
  have n1: "n = received ?evs1"
    using 1(2,5) by (simp add: received_append received_polls)
  have c1: "list_all read_complete ?evs1 \<longrightarrow> received ?evs1 = cnt"
    using 1(2) by (simp add: received_append received_polls)
  have nw1: "list_all (\<lambda>e. \<not> is_write e) ?evs1"
    using 1(2) by (simp add: polls_not_write)
  have same: "memcmp buf rbuf cnt = 0"
    if "\<forall>i<cnt. m (a + of_nat i) = buf i" "in_one_bank a cnt" "list_all (read_banked m) ?evs1"
  proof -
    from that(3) have st: "st = 0" and ds: "ds = map (\<lambda>j. m (bank_address a j)) [0..<cnt]"
      by (simp_all split: if_splits)
    have "\<forall>i<cnt. buf i = rbuf i"
      using that(1) by (simp add: 1(6) st ds poke_def bank_address_linear[OF that(2)])
    then show ?thesis by (simp add: memcmp_eq_0)
  qed
  have cfg1: "0 < pageSize s1" "pageSize s1 < 256" "platform s1 = platform s"
    using 1(1) ps by (simp_all add: same_config_def)
  show ?thesis
  proof (cases "memcmp buf rbuf cnt = 0")
    case True
    with w have "s2 = s1" by simp
    with 1(1,4) n1 c1 nw1 show ?thesis by auto
  next
    case False
    with w obtain st' where p: "pageBlock a buf (of_nat cnt) True s1 = Some (st', s2)"
      by (auto split: bind_splits)
    from pageBlock_run[OF p cfg1(1,2)] obtain evs2 where 2: "same_config s1 s2"
      "log s2 = log s1 @ evs2"
      "page_events (pageSize s1) (I2C_BUFFERSIZE (platform s1)) (deviceAddress s1) True a buf
         (unat (of_nat cnt :: 16 word)) evs2 st'"
      by blast
    note nr = page_events_no_reads[OF 2(3), of m]
    have "same_config s s2" using 1(1) 2(1) by (rule same_config_trans)
    moreover have "log s2 = log s @ (?evs1 @ evs2)" using 1(4) 2(2) by simp
    moreover have "of_nat n = (of_nat (received (?evs1 @ evs2)) :: 32 word)"
      using n1 nr by (simp add: received_append)
    moreover have "list_all read_complete (?evs1 @ evs2) \<longrightarrow> received (?evs1 @ evs2) = cnt"
      using c1 nr by (simp add: received_append)
    moreover have "(\<forall>i<cnt. m (a + of_nat i) = buf i) \<and> in_one_bank a cnt \<and>
           list_all (read_banked m) (?evs1 @ evs2)
           \<longrightarrow> list_all (\<lambda>e. \<not> is_write e) (?evs1 @ evs2)"
      using same False by auto
    ultimately show ?thesis by blast
  qed
qed

lemma updateBlock_loop_run:
  assumes "updateBlock_loop a buf len rv stack s = Some (rv', s')"
    and "0 < pageSize s" "pageSize s < 256"
  shows "same_config s s' \<and>
     (\<exists>evs. log s' = log s @ evs \<and> rv' = rv + of_nat (received evs) \<and>
        (list_all read_complete evs \<longrightarrow> received evs = unat len) \<and>
        ((\<forall>i<unat len. m (a + of_nat i) = buf i) \<and> in_one_bank a (unat len) \<and>
         list_all (read_banked m) evs
           \<longrightarrow> list_all (\<lambda>e. \<not> is_write e) evs))"
  using assms
proof (induction "unat len" arbitrary: a buf len rv stack s rule: less_induct)
  case less
  show ?case
  proof (cases "len = 0")
    case True
    with less.prems(1) have "rv' = rv" "s' = s"
      by (simp_all add: updateBlock_loop.simps)
    with True show ?thesis by simp
  next
    case False
    then have pos: "0 < len" "0 < unat len"
      by (simp_all add: word_greater_zero_iff unat_gt_0)
    let ?cnt = "min (I2C_BUFFERSIZE (platform s)) (unat len)"
    have cnt: "0 < ?cnt" "?cnt \<le> unat len" "?cnt \<le> I2C_BUFFERSIZE (platform s)"
      using pos(2) by (simp_all add: I2C_BUFFERSIZE_pos)
    from less.prems(1) obtain n rbuf s1 s2 where
      r: "ReadBlock a stack 0 ?cnt s = Some (n, rbuf, s1)" and
      w: "(if memcmp buf rbuf ?cnt \<noteq> 0
           then pageBlock a buf (of_nat ?cnt) True s1 \<bind> (\<lambda>(st, s'). Some s')
           else Some s1) = Some s2" and
      rec: "updateBlock_loop (a + of_nat ?cnt) (ptr_add buf ?cnt) (len - of_nat ?cnt)
              (rv + of_nat n) rbuf s2 = Some (rv', s')"
      unfolding updateBlock_loop_unfold[OF pos(1)]
      by (auto split: bind_splits)
    from update_round[OF r w less.prems(2,3) cnt(1,3), of m] obtain evs1 where 1:
      "same_config s s2" "log s2 = log s @ evs1" "of_nat n = (of_nat (received evs1) :: 32 word)"
      "list_all read_complete evs1 \<longrightarrow> received evs1 = ?cnt"
      "(\<forall>i<?cnt. m (a + of_nat i) = buf i) \<and> in_one_bank a ?cnt \<and> list_all (read_banked m) evs1
           \<longrightarrow> list_all (\<lambda>e. \<not> is_write e) evs1"
      by blast
    have len': "unat (len - of_nat ?cnt) = unat len - ?cnt"
      using cnt(2) by (rule unat_sub_of_nat32)
    have dec: "unat (len - of_nat ?cnt) < unat len" using len' cnt by simp
    have cfg: "0 < pageSize s2" "pageSize s2 < 256"
      using 1(1) less.prems(2,3) by (simp_all add: same_config_def)
    from less.hyps[OF dec rec cfg] obtain evs2 where 2:
      "same_config s2 s'" "log s' = log s2 @ evs2"
      "rv' = rv + of_nat n + of_nat (received evs2)"
      "list_all read_complete evs2 \<longrightarrow> received evs2 = unat len - ?cnt"
      "(\<forall>i<unat len - ?cnt. m (a + of_nat ?cnt + of_nat i) = ptr_add buf ?cnt i) \<and>
         in_one_bank (a + of_nat ?cnt) (unat len - ?cnt) \<and>
         list_all (read_banked m) evs2 \<longrightarrow> list_all (\<lambda>e. \<not> is_write e) evs2"
      unfolding len' by blast
    have "same_config s s'" using 1(1) 2(1) by (rule same_config_trans)
    moreover have "log s' = log s @ (evs1 @ evs2)" using 1(2) 2(2) by simp
    moreover have "rv' = rv + of_nat (received (evs1 @ evs2))"
      using 2(3) 1(3) by (simp add: received_append)
    moreover have "list_all read_complete (evs1 @ evs2) \<longrightarrow> received (evs1 @ evs2) = unat len"
      using 1(4) 2(4) cnt(2) by (simp add: received_append)
    moreover have "(\<forall>i<unat len. m (a + of_nat i) = buf i) \<and> in_one_bank a (unat len) \<and>
           list_all (read_banked m) (evs1 @ evs2)
           \<longrightarrow> list_all (\<lambda>e. \<not> is_write e) (evs1 @ evs2)"
    proof (intro impI, elim conjE)
      assume region: "\<forall>i<unat len. m (a + of_nat i) = buf i"
        and bank: "in_one_bank a (unat len)"
        and reads: "list_all (read_banked m) (evs1 @ evs2)"
      have "\<forall>i<?cnt. m (a + of_nat i) = buf i" using region cnt(2) by simp
      moreover have "in_one_bank a ?cnt"
        using bank cnt(2) by (rule in_one_bank_mono)
      ultimately have a1: "list_all (\<lambda>e. \<not> is_write e) evs1"
        using reads 1(5) by simp
      have "\<forall>i<unat len - ?cnt. m (a + of_nat ?cnt + of_nat i) = ptr_add buf ?cnt i"
      proof (intro allI impI)
        fix i assume "i < unat len - ?cnt"
        then have "i + ?cnt < unat len" by simp
        with region have "m (a + of_nat (i + ?cnt)) = buf (i + ?cnt)" by blast
        then show "m (a + of_nat ?cnt + of_nat i) = ptr_add buf ?cnt i"
          by (simp add: ptr_add_def ac_simps)
      qed
      moreover have "in_one_bank (a + of_nat ?cnt) (unat len - ?cnt)"
        using bank cnt(2) by (rule in_one_bank_step)
      ultimately have "list_all (\<lambda>e. \<not> is_write e) evs2"
        using reads 2(5) by simp
      with a1 show "list_all (\<lambda>e. \<not> is_write e) (evs1 @ evs2)" by simp
    qed
    ultimately show ?thesis by blast
  qed
qed

lemma updateBlock_loop_terminates:
  assumes "clock_live s" "0 < pageSize s" "pageSize s < 256"
  shows "\<exists>rv' s'. updateBlock_loop a buf len rv stack s = Some (rv', s')"
  using assms
proof (induction "unat len" arbitrary: a buf len rv stack s rule: less_induct)
  case less
  show ?case
  proof (cases "len = 0")
    case True
    then show ?thesis by (simp add: updateBlock_loop.simps)
  next
    case False
    then have pos: "0 < len" "0 < unat len"
      by (simp_all add: word_greater_zero_iff unat_gt_0)
    let ?cnt = "min (I2C_BUFFERSIZE (platform s)) (unat len)"
    have cnt: "0 < ?cnt" "?cnt \<le> unat len" "?cnt \<le> I2C_BUFFERSIZE (platform s)"
      using pos(2) by (simp_all add: I2C_BUFFERSIZE_pos)
    from clock_live_ReadBlock[OF less.prems(1)]
    obtain n rbuf s1 where r: "ReadBlock a stack 0 ?cnt s = Some (n, rbuf, s1)" by blast
    from ReadBlock_run[OF r] have c1: "same_config s s1" by blast
    then have live1: "clock_live s1" using less.prems(1) by (rule same_config_live)
    have ps1: "0 < pageSize s1" "pageSize s1 < 256"
      using c1 less.prems(2,3) by (simp_all add: same_config_def)
    have "\<exists>s2. (if memcmp buf rbuf ?cnt \<noteq> 0
           then pageBlock a buf (of_nat ?cnt) True s1 \<bind> (\<lambda>(st, s'). Some s')
           else Some s1) = Some s2"
    proof (cases "memcmp buf rbuf ?cnt = 0")
      case True
      then show ?thesis by simp
    next
      case False
      from pageBlock_terminates[OF live1 ps1] obtain st s2 where
        "pageBlock a buf (of_nat ?cnt) True s1 = Some (st, s2)" by blast
      with False show ?thesis by simp
    qed
    then obtain s2 where w: "(if memcmp buf rbuf ?cnt \<noteq> 0
           then pageBlock a buf (of_nat ?cnt) True s1 \<bind> (\<lambda>(st, s'). Some s')
           else Some s1) = Some s2" ..
    from update_round[OF r w less.prems(2,3) cnt(1,3), of "\<lambda>_. 0"] have "same_config s s2" by blast
    then have live2: "clock_live s2" and ps2: "0 < pageSize s2" "pageSize s2 < 256"
      using less.prems by (simp_all add: same_config_live same_config_def)
    have "unat (len - of_nat ?cnt) < unat len"
      using cnt by (simp add: unat_sub_of_nat32)
    from less.hyps[OF this live2 ps2]
    obtain rv' s' where "updateBlock_loop (a + of_nat ?cnt) (ptr_add buf ?cnt) (len - of_nat ?cnt)
              (rv + of_nat n) rbuf s2 = Some (rv', s')" by blast
    with r w show ?thesis
      unfolding updateBlock_loop_unfold[OF pos(1)] by simp
  qed
qed

text \<open>
  On a region that lies in one bank and holds the bytes of the buffer, an update writes
  nothing, whatever lay in the compare buffer.
\<close>

lemma updateBlock_noop_in_bank:
  assumes "clock_live s" "0 < pageSize s" "pageSize s < 256"
    and "\<forall>i<unat n. m (a + of_nat i) = buf i" "in_one_bank a (unat n)"
  shows "\<exists>rv s'. updateBlock a buf n stack s = Some (rv, s') \<and>
           (list_all (read_banked m) (emitted s s') \<longrightarrow>
              list_all (\<lambda>e. \<not> is_write e) (emitted s s') \<and> rv = n)"
proof -
  from updateBlock_loop_terminates[OF assms(1-3)] obtain rv s' where
    run: "updateBlock_loop a buf n 0 stack s = Some (rv, s')" by blast
  from updateBlock_loop_run[OF run assms(2,3), of m] obtain evs where
    evs: "log s' = log s @ evs" "rv = 0 + of_nat (received evs)"
    "list_all read_complete evs \<longrightarrow> received evs = unat n"
    "(\<forall>i<unat n. m (a + of_nat i) = buf i) \<and> in_one_bank a (unat n) \<and>
       list_all (read_banked m) evs
       \<longrightarrow> list_all (\<lambda>e. \<not> is_write e) evs"
    by blast
  have e: "emitted s s' = evs" using evs(1) by (rule emittedI)
  have "list_all (\<lambda>e. \<not> is_write e) evs \<and> rv = n" if reads: "list_all (read_banked m) evs"
  proof -
    from reads have "list_all read_complete evs"
      by (auto simp: list_all_iff intro: read_banked_complete)
    with evs(2,3) have "rv = n" by simp
    with evs(4) assms(4,5) reads show ?thesis by blast
  qed
  with run show ?thesis
    by (auto simp: updateBlock_def e)
qed

lemma bench_updateBlock_same:
  "\<exists>s'. updateBlock 0x100 (\<lambda>i. of_nat i + 7) 2 (\<lambda>_. 0) (bench (\<lambda>_. 0) (\<lambda>_. [7, 8, 9])) = Some (2, s') \<and>
     emitted (bench (\<lambda>_. 0) (\<lambda>_. [7, 8, 9])) s' =
       [Probe 0x50 0, Probe 0x50 0, Select 0x100 0x50 [1, 0] 0, Request 0x100 0x50 2 [7, 8]]"
  by (simp add: updateBlock_def updateBlock_loop.simps memcmp_def run_defs Let_def)

lemma bench_updateBlock_fail:
  "\<exists>s'. updateBlock 0x100 (\<lambda>_. 7) 1 (\<lambda>_. 0) (bench (\<lambda>k. if k = 5 then 2 else 0) (\<lambda>_. [9])) = Some (1, s') \<and>
     emitted (bench (\<lambda>k. if k = 5 then 2 else 0) (\<lambda>_. [9])) s' =
       [Probe 0x50 0, Probe 0x50 0, Select 0x100 0x50 [1, 0] 0, Request 0x100 0x50 1 [9],
        Probe 0x50 0, Probe 0x50 0, Write 0x100 0x50 [1, 0, 7] 2]"
  by (simp add: updateBlock_def updateBlock_loop.simps memcmp_def run_defs Let_def)

lemma bench_updateBlock_ok:
  "\<exists>s'. updateBlock 0x100 (\<lambda>_. 7) 1 (\<lambda>_. 0) (bench (\<lambda>_. 0) (\<lambda>_. [9])) = Some (1, s') \<and>
     emitted (bench (\<lambda>_. 0) (\<lambda>_. [9])) s' =
       [Probe 0x50 0, Probe 0x50 0, Select 0x100 0x50 [1, 0] 0, Request 0x100 0x50 1 [9],
        Probe 0x50 0, Probe 0x50 0, Write 0x100 0x50 [1, 0, 7] 0]"
  by (simp add: updateBlock_def updateBlock_loop.simps memcmp_def run_defs Let_def)

lemma bench_updateBlock_rewrite:
  "\<exists>s'. updateBlock 0x100 (\<lambda>_. 7) 1 (\<lambda>_. 0) (bench (\<lambda>_. 0) (\<lambda>k. if k = 0 then [9] else [7])) = Some (1, s') \<and>
     emitted (bench (\<lambda>_. 0) (\<lambda>k. if k = 0 then [9] else [7])) s' =
       [Probe 0x50 0, Probe 0x50 0, Select 0x100 0x50 [1, 0] 0, Request 0x100 0x50 1 [9],
        Probe 0x50 0, Probe 0x50 0, Write 0x100 0x50 [1, 0, 7] 0]"
  by (simp add: updateBlock_def updateBlock_loop.simps memcmp_def run_defs Let_def)

lemma bench_updateBlockVerify_true:
  "\<exists>s'. updateBlockVerify 0x100 (\<lambda>_. 7) 1 (\<lambda>_. 0) (\<lambda>_. 0)
           (bench (\<lambda>_. 0) (\<lambda>k. if k = 0 then [9] else [7])) = Some (True, s') \<and>
     emitted (bench (\<lambda>_. 0) (\<lambda>k. if k = 0 then [9] else [7])) s' =
       [Probe 0x50 0, Probe 0x50 0, Select 0x100 0x50 [1, 0] 0, Request 0x100 0x50 1 [9],
        Probe 0x50 0, Probe 0x50 0, Write 0x100 0x50 [1, 0, 7] 0,
        Probe 0x50 0, Probe 0x50 0, Select 0x100 0x50 [1, 0] 0, Request 0x100 0x50 1 [7]]"
  by (simp add: updateBlockVerify_def updateBlock_def updateBlock_loop.simps readBlock_nosplit
      readBlock_loop.simps memcmp_def run_defs Let_def)

lemma bench_updateBlock_straddle:
  "\<exists>s'. updateBlock 0xFFF0 (\<lambda>_. 7) 35 (\<lambda>_. 0)
           (bench (\<lambda>_. 0) (\<lambda>k. if k = 0 then [7, 7, 7, 7, 7, 7, 7, 7, 7, 7, 7, 7, 7, 7, 7, 7, 0, 0, 0, 0, 0, 0, 0, 0, 0, 0, 0, 0, 0, 0] else [7, 7, 7, 7, 7]))
         = Some (35, s') \<and>
     emitted (bench (\<lambda>_. 0) (\<lambda>k. if k = 0 then [7, 7, 7, 7, 7, 7, 7, 7, 7, 7, 7, 7, 7, 7, 7, 7, 0, 0, 0, 0, 0, 0, 0, 0, 0, 0, 0, 0, 0, 0] else [7, 7, 7, 7, 7])) s' =
       [Probe 0x50 0, Probe 0x50 0, Select 0xFFF0 0x50 [0xFF, 0xF0] 0,
        Request 0xFFF0 0x50 30 ([7, 7, 7, 7, 7, 7, 7, 7, 7, 7, 7, 7, 7, 7, 7, 7, 0, 0, 0, 0, 0, 0, 0, 0, 0, 0, 0, 0, 0, 0]),
        Probe 0x50 0, Probe 0x50 0, Write 0xFFF0 0x50 [0xFF, 0xF0, 7, 7, 7, 7, 7, 7, 7, 7, 7, 7, 7, 7, 7, 7, 7, 7] 0,
        Probe 0x50 0, Probe 0x54 0, Write 0x10000 0x54 [0, 0, 7, 7, 7, 7, 7, 7, 7, 7, 7, 7, 7, 7, 7, 7] 0,
        Probe 0x50 0, Probe 0x54 0, Select 0x1000E 0x54 [0, 0x0E] 0,
        Request 0x1000E 0x54 5 ([7, 7, 7, 7, 7])]"
  by (simp add: updateBlock_def updateBlock_loop.simps memcmp_def run_defs Let_def)

section \<open>The properties\<close>

text \<open>
  Claim C7. Address and bank resolution: for every 32-bit logical address,
  \<^verbatim>\<open>_beginTransmission\<close> returns (once its wait is over, which a live clock
  ensures) with the control byte equal to the device address, or-ed with \<^verbatim>\<open>0x04\<close>
  exactly when the address is at or above \<^verbatim>\<open>0x10000\<close>, and with two bytes
  queued that are the high and the low byte of the address modulo \<open>2\<^sup>1\<^sup>6\<close>.
\<close>

theorem beginTransmission_resolves:
  assumes "clock_live s"
  shows "\<exists>s' hi lo. beginTransmission a s = Some s' \<and>
           actualAddress s' = (if 0x10000 \<le> a then deviceAddress s OR 0x04 else deviceAddress s) \<and>
           (bit (actualAddress s') 2 \<longleftrightarrow> 0x10000 \<le> a \<or> bit (deviceAddress s) 2) \<and>
           txaddr s' = actualAddress s' \<and> txbuf s' = [hi, lo] \<and>
           unat hi * 256 + unat lo = unat a mod 65536"
proof -
  from clock_live_beginTransmission[OF assms] obtain s' where b: "beginTransmission a s = Some s'" ..
  from beginTransmission_run[OF b]
  have 1: "actualAddress s' = controlByte s a" "txaddr s' = controlByte s a" "txbuf s' = addressBytes a"
    by blast+
  let ?hi = "ucast (drop_bit 8 (memAddr a) AND 0xFF) :: 8 word"
  let ?lo = "ucast (memAddr a AND 0xFF) :: 8 word"
  have "unat ?hi * 256 + unat ?lo = unat a mod 65536"
    by (simp only: addressBytes_value unat_memAddr)
  moreover have "txbuf s' = [?hi, ?lo]"
    by (simp add: 1 addressBytes_def)
  moreover have "bit (actualAddress s') 2 \<longleftrightarrow> 0x10000 \<le> a \<or> bit (deviceAddress s) 2"
    by (simp add: 1 controlByte_def bit_simps)
  ultimately show ?thesis
    using b 1 by (auto simp: controlByte_def)
qed

theorem beginTransmission_resolves_witness:
  "clock_live (bench (\<lambda>_. 0) (\<lambda>_. [])) \<and>
   (\<exists>s'. beginTransmission 0x12345 (bench (\<lambda>_. 0) (\<lambda>_. [])) = Some s' \<and>
      actualAddress s' = 0x54 \<and> txaddr s' = 0x54 \<and> txbuf s' = [0x23, 0x45])"
proof -
  have live: "clock_live (bench (\<lambda>_. 0) (\<lambda>_. []))" by (rule clock_live_bench)
  from beginTransmission_resolves[OF live, of "0x12345"]
  obtain s' hi lo where *: "beginTransmission 0x12345 (bench (\<lambda>_. 0) (\<lambda>_. [])) = Some s'"
    "actualAddress s' = (if (0x10000::32 word) \<le> 0x12345 then deviceAddress (bench (\<lambda>_. 0) (\<lambda>_. [])) OR 0x04
                         else deviceAddress (bench (\<lambda>_. 0) (\<lambda>_. [])))"
    "txaddr s' = actualAddress s'" "txbuf s' = [hi, lo]"
    by blast
  have "txbuf s' = [0x23, 0x45]"
    using *(1)
    by (auto simp: beginTransmission_def beginTransmission_loop.simps bench_def wire_defs
        waitTime_def I2C_WRITEDELAY_def memAddr_def Let_def)
  with * live show ?thesis
    by (simp add: bench_def)
qed

text \<open>
  Claim C8. The ready-wait gate \<^verbatim>\<open>_waitEEReady\<close> against its deadline of 5000
  microseconds plus 1000 for every millisecond of configured extra delay, counted from
  the last write. When the first reading of the clock shows more than that elapsed, no
  probe is issued. When it does not and the device acknowledges the first probe, exactly
  one probe is issued and the clock is read once. In general, when \<open>n\<close> is the first
  round at which the clock shows the deadline passed or the device acknowledges, the gate
  returns in that round: it has issued \<open>n\<close> probes (one more when it ends on an
  acknowledgement), each after a reading of the clock within the deadline. The deadline
  is one that the 32-bit counter can hold.
\<close>

theorem waitEEReady_deadline:
  assumes "deadline s < 2 ^ 32"
  shows "(expired s 0 \<longrightarrow>
      (\<exists>s'. waitEEReady s = Some s' \<and> log s' = log s \<and> ntx s' = ntx s \<and> ticks s' = Suc (ticks s))) \<and>
   (\<not> expired s 0 \<and> acks s (ntx s) = 0 \<longrightarrow>
      (\<exists>s'. waitEEReady s = Some s' \<and> log s' = log s @ [Probe (deviceAddress s) 0] \<and>
         ntx s' = Suc (ntx s) \<and> ticks s' = Suc (ticks s))) \<and>
   ((\<forall>k<n. \<not> expired s k \<and> acks s (ntx s + k) \<noteq> 0) \<and> (expired s n \<or> acks s (ntx s + n) = 0) \<longrightarrow>
      (\<exists>s'. waitEEReady s = Some s' \<and>
         log s' = log s @ probe_events s (if expired s n then n else Suc n) \<and>
         list_all (\<lambda>k. \<not> expired s k) [0..<(if expired s n then n else Suc n)] \<and>
         ntx s' = ntx s + (if expired s n then n else Suc n) \<and>
         ticks s' = ticks s + Suc n))"
proof -
  note ex = expired_waitTime[OF assms]
  show ?thesis
  proof (intro conjI impI)
    assume "expired s 0"
    with waitEEReady_loop_polls[of 0 s "waitTime s"]
    show "\<exists>s'. waitEEReady s = Some s' \<and> log s' = log s \<and> ntx s' = ntx s \<and> ticks s' = Suc (ticks s)"
      by (auto simp: waitEEReady_def ex probe_events_def)
  next
    assume "\<not> expired s 0 \<and> acks s (ntx s) = 0"
    with waitEEReady_loop_polls[of 0 s "waitTime s"]
    show "\<exists>s'. waitEEReady s = Some s' \<and> log s' = log s @ [Probe (deviceAddress s) 0] \<and>
           ntx s' = Suc (ntx s) \<and> ticks s' = Suc (ticks s)"
      by (auto simp: waitEEReady_def ex probe_events_def)
  next
    assume A: "(\<forall>k<n. \<not> expired s k \<and> acks s (ntx s + k) \<noteq> 0) \<and> (expired s n \<or> acks s (ntx s + n) = 0)"
    then have 1: "\<forall>k<n. clock s (ticks s + k) - lastWrite s \<le> waitTime s \<and> acks s (ntx s + k) \<noteq> 0"
      and 2: "waitTime s < clock s (ticks s + n) - lastWrite s \<or> acks s (ntx s + n) = 0"
      by (auto simp: ex not_less)
    have 3: "list_all (\<lambda>k. \<not> expired s k) [0..<(if expired s n then n else Suc n)]"
      using A by (auto simp: list_all_iff less_Suc_eq)
    from waitEEReady_loop_polls[OF 1 2] 3
    show "\<exists>s'. waitEEReady s = Some s' \<and>
           log s' = log s @ probe_events s (if expired s n then n else Suc n) \<and>
           list_all (\<lambda>k. \<not> expired s k) [0..<(if expired s n then n else Suc n)] \<and>
           ntx s' = ntx s + (if expired s n then n else Suc n) \<and>
           ticks s' = ticks s + Suc n"
      by (auto simp: waitEEReady_def ex)
  qed
qed

theorem waitEEReady_deadline_witness:
  "deadline (bench (\<lambda>_. 2) (\<lambda>_. [])\<lparr>extraTWR := 2, clock := \<lambda>k. of_nat (k * 3000)\<rparr>) = 7000 \<and>
   map (elapsed (bench (\<lambda>_. 2) (\<lambda>_. [])\<lparr>extraTWR := 2, clock := \<lambda>k. of_nat (k * 3000)\<rparr>)) [0, 1, 2, 3]
     = [0, 3000, 6000, 9000] \<and>
   (\<exists>s'. waitEEReady (bench (\<lambda>_. 2) (\<lambda>_. [])\<lparr>extraTWR := 2, clock := \<lambda>k. of_nat (k * 3000)\<rparr>) = Some s' \<and>
      log s' = [Probe 0x50 2, Probe 0x50 2, Probe 0x50 2] \<and> ntx s' = 3 \<and> ticks s' = 4) \<and>
   deadline (bench (\<lambda>_. 2) (\<lambda>_. [])\<lparr>lastWrite := 0xFFFF0000\<rparr>) = 5000 \<and>
   elapsed (bench (\<lambda>_. 2) (\<lambda>_. [])\<lparr>lastWrite := 0xFFFF0000\<rparr>) 0 = 65536 \<and>
   (\<exists>s'. waitEEReady (bench (\<lambda>_. 2) (\<lambda>_. [])\<lparr>lastWrite := 0xFFFF0000\<rparr>) = Some s' \<and>
      log s' = [] \<and> ntx s' = 0 \<and> ticks s' = 1) \<and>
   elapsed (bench (\<lambda>_. 0) (\<lambda>_. [])) 0 = 0 \<and>
   (\<exists>s'. waitEEReady (bench (\<lambda>_. 0) (\<lambda>_. [])) = Some s' \<and>
      log s' = [Probe 0x50 0] \<and> ntx s' = 1 \<and> ticks s' = 1)"
proof -
  let ?s = "bench (\<lambda>_. 2) (\<lambda>_. [])\<lparr>extraTWR := 2, clock := \<lambda>k. of_nat (k * 3000)\<rparr>"
  let ?t = "bench (\<lambda>_. 2) (\<lambda>_. [])\<lparr>lastWrite := 0xFFFF0000\<rparr>"
  let ?u = "bench (\<lambda>_. 0) (\<lambda>_. [])"
  have d: "deadline ?s = 7000" "deadline ?t = 5000" "deadline ?u = 5000"
    by (simp_all add: deadline_def bench_def)
  have el: "elapsed ?s 0 = 0" "elapsed ?s 1 = 3000" "elapsed ?s 2 = 6000" "elapsed ?s 3 = 9000"
    "elapsed ?t 0 = 65536" "elapsed ?u 0 = 0"
    by (simp_all add: elapsed_def bench_def)
  have e: "\<not> expired ?s 0" "\<not> expired ?s 1" "\<not> expired ?s 2" "expired ?s 3"
    unfolding expired_def d el by simp_all
  have h: "(\<forall>k<3. \<not> expired ?s k \<and> acks ?s (ntx ?s + k) \<noteq> 0) \<and> (expired ?s 3 \<or> acks ?s (ntx ?s + 3) = 0)"
    using e by (simp add: bench_def less_Suc_eq numeral_3_eq_3 numeral_2_eq_2)
  from waitEEReady_deadline[of ?s 3] h e(4) d(1)
  have "\<exists>s'. waitEEReady ?s = Some s' \<and> log s' = log ?s @ probe_events ?s 3 \<and> ntx s' = ntx ?s + 3 \<and> ticks s' = ticks ?s + 4"
    by auto
  then have 1: "\<exists>s'. waitEEReady ?s = Some s' \<and>
      log s' = [Probe 0x50 2, Probe 0x50 2, Probe 0x50 2] \<and> ntx s' = 3 \<and> ticks s' = 4"
    by (simp add: probe_events_def bench_def numeral_3_eq_3 upt_rec)
  have et: "expired ?t 0"
    unfolding expired_def d el by simp
  with waitEEReady_deadline[of ?t 0] d(2)
  have 2: "\<exists>s'. waitEEReady ?t = Some s' \<and> log s' = [] \<and> ntx s' = 0 \<and> ticks s' = 1"
    by (simp add: bench_def)
  have eu: "\<not> expired ?u 0"
    unfolding expired_def d el by simp
  with waitEEReady_deadline[of ?u 0] d(3)
  have 3: "\<exists>s'. waitEEReady ?u = Some s' \<and> log s' = [Probe 0x50 0] \<and> ntx s' = 1 \<and> ticks s' = 1"
    by (simp add: bench_def)
  from d el 1 2 3 show ?thesis by simp
qed

text \<open>
  Claim C2. Every chunk that \<^verbatim>\<open>_pageBlock\<close> writes is non-empty and at most as long
  as the transfer buffer, as the distance from its address to the end of the page, and as
  the number of bytes that remain; its address range \<open>[a, a + n)\<close> lies in one page
  (\<open>a div pageSize = (a + n - 1) div pageSize\<close>) and, when the page size divides
  \<^verbatim>\<open>0x10000\<close>, in one bank. The page size is any value from 1 to 255; the run
  returns, given a clock that leaves every wait.
\<close>

theorem pageBlock_chunks:
  assumes "clock_live s" "0 < pageSize s" "pageSize s < 256"
  shows "\<exists>rv s'. pageBlock a buf len inc s = Some (rv, s') \<and>
           chunks_ok (pageSize s) (I2C_BUFFERSIZE (platform s)) (unat len) (emitted s s') \<and>
           (pageSize s dvd 65536 \<longrightarrow> list_all within_bank (emitted s s'))"
proof -
  from pageBlock_terminates[OF assms] obtain rv s' where
    run: "pageBlock a buf len inc s = Some (rv, s')" by blast
  from pageBlock_run[OF run assms(2,3)] obtain evs where evs: "log s' = log s @ evs"
    "page_events (pageSize s) (I2C_BUFFERSIZE (platform s)) (deviceAddress s) inc a buf (unat len) evs rv"
    by blast
  have e: "emitted s s' = evs" using evs(1) by (rule emittedI)
  have "chunks_ok (pageSize s) (I2C_BUFFERSIZE (platform s)) (unat len) evs"
    using evs(2) assms(2) I2C_BUFFERSIZE_pos by (rule page_events_chunks_ok)
  moreover have "pageSize s dvd 65536 \<Longrightarrow> list_all within_bank evs"
    using evs(2) assms(2) I2C_BUFFERSIZE_pos by (rule page_events_within_bank)
  ultimately show ?thesis
    using run by (auto simp: e)
qed

theorem pageBlock_chunks_witness:
  "clock_live (bench (\<lambda>_. 0) (\<lambda>_. [])) \<and>
   0 < pageSize (bench (\<lambda>_. 0) (\<lambda>_. [])) \<and> pageSize (bench (\<lambda>_. 0) (\<lambda>_. [])) < 256 \<and>
   pageSize (bench (\<lambda>_. 0) (\<lambda>_. [])) dvd 65536 \<and>
   (\<exists>s'. pageBlock 0xFFF0 (\<lambda>i. of_nat i) 40 True (bench (\<lambda>_. 0) (\<lambda>_. [])) = Some (0, s') \<and>
      chunks_ok 128 30 40 (emitted (bench (\<lambda>_. 0) (\<lambda>_. [])) s') \<and>
      list_all within_bank (emitted (bench (\<lambda>_. 0) (\<lambda>_. [])) s') \<and>
      length (write_statuses (emitted (bench (\<lambda>_. 0) (\<lambda>_. [])) s')) = 2)"
proof -
  let ?s = "bench (\<lambda>_. 0) (\<lambda>_. [])"
  have live: "clock_live ?s" by (rule clock_live_bench)
  have ps: "0 < pageSize ?s" "pageSize ?s < 256" "pageSize ?s dvd 65536"
    by (simp_all add: bench_def)
  from pageBlock_chunks[OF live ps(1,2), of "0xFFF0" "\<lambda>i. of_nat i" 40 True] ps(3)
  obtain rv s' where run: "pageBlock 0xFFF0 (\<lambda>i. of_nat i) 40 True ?s = Some (rv, s')"
    and ok: "chunks_ok (pageSize ?s) (I2C_BUFFERSIZE (platform ?s)) (unat (40 :: 16 word)) (emitted ?s s')"
    "list_all within_bank (emitted ?s s')"
    by blast
  from bench_pageBlock_run run have rv: "rv = 0"
    and ev: "length (write_statuses (emitted ?s s')) = 2"
    by auto
  from ok(1) have "chunks_ok 128 30 40 (emitted ?s s')"
    by (simp add: bench_def)
  with live ps run rv ev ok(2) show ?thesis by blast
qed

text \<open>
  Claim C3. \<^verbatim>\<open>_pageBlock\<close>, and with it \<^verbatim>\<open>writeBlock\<close> and \<^verbatim>\<open>setBlock\<close>,
  returns (given a clock that leaves every wait) and its result is 0 exactly when every
  chunk transaction reported status 0; a result other than 0 is the status of the last
  event on the bus, a chunk transaction, and every chunk before it reported 0: the loop
  stopped at the first failure and nothing was issued after it.
\<close>

theorem pageBlock_first_failure:
  assumes "clock_live s" "0 < pageSize s" "pageSize s < 256"
  shows "(\<exists>rv s'. pageBlock a buf len inc s = Some (rv, s') \<and> first_failure rv (emitted s s')) \<and>
         (\<exists>rv s'. writeBlock a buf n s = Some (rv, s') \<and> first_failure rv (emitted s s')) \<and>
         (\<exists>rv s'. setBlock a d n stack s = Some (rv, s') \<and> first_failure rv (emitted s s'))"
proof -
  have *: "\<exists>rv s'. pageBlock a buf len inc s = Some (rv, s') \<and> first_failure rv (emitted s s')"
    for a buf len inc
  proof -
    from pageBlock_terminates[OF assms] obtain rv s' where
      run: "pageBlock a buf len inc s = Some (rv, s')" by blast
    from pageBlock_run[OF run assms(2,3)] obtain evs where evs: "log s' = log s @ evs"
      "page_events (pageSize s) (I2C_BUFFERSIZE (platform s)) (deviceAddress s) inc a buf (unat len) evs rv"
      by blast
    have "first_failure rv (emitted s s')"
      using page_events_first_failure[OF evs(2)] emittedI[OF evs(1)] by simp
    with run show ?thesis by blast
  qed
  show ?thesis
    unfolding writeBlock_def setBlock_def using * by blast
qed

theorem pageBlock_first_failure_witness:
  "clock_live (bench (\<lambda>k. if k = 5 then 3 else 0) (\<lambda>_. [])) \<and>
   0 < pageSize (bench (\<lambda>k. if k = 5 then 3 else 0) (\<lambda>_. [])) \<and>
   pageSize (bench (\<lambda>k. if k = 5 then 3 else 0) (\<lambda>_. [])) < 256 \<and>
   (\<exists>s'. pageBlock 0xFFF0 (\<lambda>i. of_nat i) 40 True (bench (\<lambda>k. if k = 5 then 3 else 0) (\<lambda>_. [])) = Some (3, s') \<and>
      first_failure 3 (emitted (bench (\<lambda>k. if k = 5 then 3 else 0) (\<lambda>_. [])) s') \<and>
      write_statuses (emitted (bench (\<lambda>k. if k = 5 then 3 else 0) (\<lambda>_. [])) s') = [0, 3])"
proof -
  let ?s = "bench (\<lambda>k. if k = 5 then 3 else 0) (\<lambda>_. [])"
  have live: "clock_live ?s" by (rule clock_live_bench)
  have ps: "0 < pageSize ?s" "pageSize ?s < 256" by (simp_all add: bench_def)
  from pageBlock_first_failure[OF live ps, of "0xFFF0" "\<lambda>i. of_nat i" 40 True]
  obtain rv s' where run: "pageBlock 0xFFF0 (\<lambda>i. of_nat i) 40 True ?s = Some (rv, s')"
    and ff: "first_failure rv (emitted ?s s')" by blast
  from bench_pageBlock_fail run have rv: "rv = 3"
    and ws: "write_statuses (emitted ?s s') = [0, 3]" by auto
  from live ps run ff rv ws show ?thesis by blast
qed

text \<open>
  Claim C1, at a length of \<^verbatim>\<open>0x10000\<close>: \<^verbatim>\<open>writeBlock\<close> hands its 32-bit length to
  the 16-bit \<^verbatim>\<open>length\<close> of \<^verbatim>\<open>_pageBlock\<close>, where it is 0; no chunk is written,
  nothing reaches the bus, and the result is 0, the status of a successful write. The same
  holds of \<^verbatim>\<open>setBlock\<close>.
\<close>

theorem writeBlock_length_65536:
  "writeBlock a buf 0x10000 s = Some (0, s) \<and> setBlock a d 0x10000 stack s = Some (0, s) \<and>
   emitted s s = []"
  by (simp add: writeBlock_def setBlock_def pageBlock.simps emitted_def)

text \<open>
  Claim C4. \<^verbatim>\<open>readBlock\<close> returns, given a clock that leaves every wait. A request
  with \<^verbatim>\<open>addr < 0x10000\<close> and \<^verbatim>\<open>addr + len > 0x10000\<close>, the sum in the 32-bit
  arithmetic of the code (which is the sum of the numbers unless that passes \<open>2\<^sup>3\<^sup>2\<close>),
  is served by exactly two runs of the read loop, and what reaches the bus is the events
  of a run that covers \<open>[addr, 0x10000)\<close> followed by those of a run that covers
  \<open>[0x10000, addr + len)\<close>: chunk after chunk, each at the address where the one before
  ended, until nothing of the range remains. Any other request is served by one run of
  the loop over \<open>[addr, addr + len)\<close>. No request on the bus straddles \<^verbatim>\<open>0x10000\<close>,
  for every range that ends within the 32-bit address space.
\<close>

theorem readBlock_bank_boundary:
  assumes "clock_live s"
  shows "((a < 0x10000 \<and> 0x10000 < a + n) \<longleftrightarrow>
            (unat a < 0x10000 \<and> 0x10000 < unat a + unat n \<and> unat a + unat n < 2 ^ 32)) \<and>
     (\<exists>rv buf' s'. readBlock a buf off n s = Some (rv, buf', s') \<and>
        rv = of_nat (received (emitted s s')) \<and>
        (a < 0x10000 \<and> 0x10000 < a + n \<longrightarrow>
           readBlock a buf off n s =
             readBlock_loop a buf off (0x10000 - a) 0 s \<bind> (\<lambda>(rv1, buf1, s1).
             readBlock_loop 0x10000 buf1 (off + unat (0x10000 - a)) (n - (0x10000 - a)) 0 s1 \<bind>
               (\<lambda>(rv2, buf2, s2). Some (rv1 + rv2, buf2, s2))) \<and>
           (\<exists>evs1 evs2. emitted s s' = evs1 @ evs2 \<and>
              read_events (I2C_BUFFERSIZE (platform s)) (deviceAddress s) a
                (0x10000 - unat a) evs1 \<and>
              read_events (I2C_BUFFERSIZE (platform s)) (deviceAddress s) 0x10000
                (unat a + unat n - 0x10000) evs2)) \<and>
        (\<not> (a < 0x10000 \<and> 0x10000 < a + n) \<longrightarrow>
           readBlock a buf off n s = readBlock_loop a buf off n 0 s \<and>
           read_events (I2C_BUFFERSIZE (platform s)) (deviceAddress s) a (unat n) (emitted s s')) \<and>
        (unat a + unat n < 2 ^ 32 \<or> 0x10000 \<le> unat a \<and> unat a + unat n \<le> 2 ^ 32
           \<longrightarrow> list_all one_bank (emitted s s')))"
proof
  show "(a < 0x10000 \<and> 0x10000 < a + n) \<longleftrightarrow>
            (unat a < 0x10000 \<and> 0x10000 < unat a + unat n \<and> unat a + unat n < 2 ^ 32)"
    by (rule split_condition)
  from readBlock_terminates[OF assms] obtain rv buf' s' where
    run: "readBlock a buf off n s = Some (rv, buf', s')" by blast
  from readBlock_run[OF run] obtain evs where evs: "log s' = log s @ evs"
    "rv = of_nat (received evs)"
    "if a < 0x10000 \<and> 0x10000 < a + n
     then \<exists>evs1 evs2. evs = evs1 @ evs2 \<and>
            read_events (I2C_BUFFERSIZE (platform s)) (deviceAddress s) a
              (0x10000 - unat a) evs1 \<and>
            read_events (I2C_BUFFERSIZE (platform s)) (deviceAddress s) 0x10000
              (unat a + unat n - 0x10000) evs2
     else read_events (I2C_BUFFERSIZE (platform s)) (deviceAddress s) a (unat n) evs"
    "unat a + unat n < 2 ^ 32 \<or> 0x10000 \<le> unat a \<and> unat a + unat n \<le> 2 ^ 32
       \<longrightarrow> list_all one_bank evs"
    by blast
  have e: "emitted s s' = evs" using evs(1) by (rule emittedI)
  have split: "readBlock a buf off n s =
             readBlock_loop a buf off (0x10000 - a) 0 s \<bind> (\<lambda>(rv1, buf1, s1).
             readBlock_loop 0x10000 buf1 (off + unat (0x10000 - a)) (n - (0x10000 - a)) 0 s1 \<bind>
               (\<lambda>(rv2, buf2, s2). Some (rv1 + rv2, buf2, s2)))"
    if "a < 0x10000 \<and> 0x10000 < a + n"
    using that by (simp add: readBlock_split)
  have whole: "readBlock a buf off n s = readBlock_loop a buf off n 0 s"
    if "\<not> (a < 0x10000 \<and> 0x10000 < a + n)"
    using that by (rule readBlock_nosplit)
  note evs' = evs(2-4)[folded e]
  from evs'(2) have A: "a < 0x10000 \<and> 0x10000 < a + n \<longrightarrow>
      (\<exists>evs1 evs2. emitted s s' = evs1 @ evs2 \<and>
         read_events (I2C_BUFFERSIZE (platform s)) (deviceAddress s) a
           (0x10000 - unat a) evs1 \<and>
         read_events (I2C_BUFFERSIZE (platform s)) (deviceAddress s) 0x10000
           (unat a + unat n - 0x10000) evs2)"
    by (simp split: if_splits)
  from evs'(2) have B: "\<not> (a < 0x10000 \<and> 0x10000 < a + n) \<longrightarrow>
      read_events (I2C_BUFFERSIZE (platform s)) (deviceAddress s) a (unat n) (emitted s s')"
    by (simp split: if_splits)
  from run evs'(1,3) A B split whole
  show "\<exists>rv buf' s'. readBlock a buf off n s = Some (rv, buf', s') \<and>
        rv = of_nat (received (emitted s s')) \<and>
        (a < 0x10000 \<and> 0x10000 < a + n \<longrightarrow>
           readBlock a buf off n s =
             readBlock_loop a buf off (0x10000 - a) 0 s \<bind> (\<lambda>(rv1, buf1, s1).
             readBlock_loop 0x10000 buf1 (off + unat (0x10000 - a)) (n - (0x10000 - a)) 0 s1 \<bind>
               (\<lambda>(rv2, buf2, s2). Some (rv1 + rv2, buf2, s2))) \<and>
           (\<exists>evs1 evs2. emitted s s' = evs1 @ evs2 \<and>
              read_events (I2C_BUFFERSIZE (platform s)) (deviceAddress s) a
                (0x10000 - unat a) evs1 \<and>
              read_events (I2C_BUFFERSIZE (platform s)) (deviceAddress s) 0x10000
                (unat a + unat n - 0x10000) evs2)) \<and>
        (\<not> (a < 0x10000 \<and> 0x10000 < a + n) \<longrightarrow>
           readBlock a buf off n s = readBlock_loop a buf off n 0 s \<and>
           read_events (I2C_BUFFERSIZE (platform s)) (deviceAddress s) a (unat n) (emitted s s')) \<and>
        (unat a + unat n < 2 ^ 32 \<or> 0x10000 \<le> unat a \<and> unat a + unat n \<le> 2 ^ 32
           \<longrightarrow> list_all one_bank (emitted s s'))"
    by blast
qed

theorem readBlock_bank_boundary_witness:
  "clock_live (bench (\<lambda>_. 0) (\<lambda>k. replicate 30 (of_nat k + 1))) \<and>
   (0xFFD0 :: 32 word) < 0x10000 \<and> (0x10000 :: 32 word) < 0xFFD0 + 88 \<and>
   (\<exists>buf' s'. readBlock 0xFFD0 (\<lambda>_. 0) 0 88 (bench (\<lambda>_. 0) (\<lambda>k. replicate 30 (of_nat k + 1))) = Some (88, buf', s') \<and>
      list_all one_bank (emitted (bench (\<lambda>_. 0) (\<lambda>k. replicate 30 (of_nat k + 1))) s') \<and>
      (\<exists>evs1 evs2. emitted (bench (\<lambda>_. 0) (\<lambda>k. replicate 30 (of_nat k + 1))) s' = evs1 @ evs2 \<and>
         read_events 30 0x50 0xFFD0 48 evs1 \<and> read_events 30 0x50 0x10000 40 evs2) \<and>
      filter (\<lambda>e. \<not> is_poll e) (emitted (bench (\<lambda>_. 0) (\<lambda>k. replicate 30 (of_nat k + 1))) s') =
       [Select 0xFFD0 0x50 [0xFF, 0xD0] 0,
        Request 0xFFD0 0x50 30 (replicate 30 1),
        Select 0xFFEE 0x50 [0xFF, 0xEE] 0,
        Request 0xFFEE 0x50 18 (replicate 18 2),
        Select 0x10000 0x54 [0, 0] 0,
        Request 0x10000 0x54 30 (replicate 30 3),
        Select 0x1001E 0x54 [0, 0x1E] 0,
        Request 0x1001E 0x54 10 (replicate 10 4)])"
proof -
  let ?s = "(bench (\<lambda>_. 0) (\<lambda>k. replicate 30 (of_nat k + 1)))"
  have live: "clock_live ?s" by (rule clock_live_bench)
  have c: "(0xFFD0 :: 32 word) < 0x10000 \<and> (0x10000 :: 32 word) < 0xFFD0 + 88" by simp
  from readBlock_bank_boundary[OF live, of "0xFFD0" 88 "\<lambda>_. 0" 0] c
  obtain rv buf' s' where run: "readBlock 0xFFD0 (\<lambda>_. 0) 0 88 ?s = Some (rv, buf', s')"
    and sp: "\<exists>evs1 evs2. emitted ?s s' = evs1 @ evs2 \<and>
              read_events (I2C_BUFFERSIZE (platform ?s)) (deviceAddress ?s) 0xFFD0
                (0x10000 - unat (0xFFD0 :: 32 word)) evs1 \<and>
              read_events (I2C_BUFFERSIZE (platform ?s)) (deviceAddress ?s) 0x10000
                (unat (0xFFD0 :: 32 word) + unat (88 :: 32 word) - 0x10000) evs2"
    and ob: "unat (0xFFD0 :: 32 word) + unat (88 :: 32 word) < 2 ^ 32 \<or>
             0x10000 \<le> unat (0xFFD0 :: 32 word) \<and> unat (0xFFD0 :: 32 word) + unat (88 :: 32 word) \<le> 2 ^ 32
           \<longrightarrow> list_all one_bank (emitted ?s s')"
    by blast
  from ob have ob': "list_all one_bank (emitted ?s s')" by simp
  from sp have sp': "\<exists>evs1 evs2. emitted ?s s' = evs1 @ evs2 \<and>
         read_events 30 0x50 0xFFD0 48 evs1 \<and> read_events 30 0x50 0x10000 40 evs2"
    by (simp add: bench_def)
  from bench_readBlock_run run have rv: "rv = 88" and ev: "emitted ?s s' =
       [Probe 0x50 0, Probe 0x50 0, Select 0xFFD0 0x50 [0xFF, 0xD0] 0,
        Request 0xFFD0 0x50 30 (replicate 30 1),
        Probe 0x50 0, Probe 0x50 0, Select 0xFFEE 0x50 [0xFF, 0xEE] 0,
        Request 0xFFEE 0x50 18 (replicate 18 2),
        Probe 0x50 0, Probe 0x54 0, Select 0x10000 0x54 [0, 0] 0,
        Request 0x10000 0x54 30 (replicate 30 3),
        Probe 0x50 0, Probe 0x54 0, Select 0x1001E 0x54 [0, 0x1E] 0,
        Request 0x1001E 0x54 10 (replicate 10 4)]"
    by auto
  have "filter (\<lambda>e. \<not> is_poll e) (emitted ?s s') =
       [Select 0xFFD0 0x50 [0xFF, 0xD0] 0,
        Request 0xFFD0 0x50 30 (replicate 30 1),
        Select 0xFFEE 0x50 [0xFF, 0xEE] 0,
        Request 0xFFEE 0x50 18 (replicate 18 2),
        Select 0x10000 0x54 [0, 0] 0,
        Request 0x10000 0x54 30 (replicate 30 3),
        Select 0x1001E 0x54 [0, 0x1E] 0,
        Request 0x1001E 0x54 10 (replicate 10 4)]"
    unfolding ev by simp
  with live c run rv ob' sp' show ?thesis by blast
qed



text \<open>
  Claim C5, at a region that lies on both sides of the bank boundary: the 35 bytes from
  \<^verbatim>\<open>0xFFF0\<close> on hold 7 and are to be updated with 7. \<^verbatim>\<open>updateBlock\<close> asks for its
  first chunk of 30 bytes in one request at \<^verbatim>\<open>0xFFF0\<close>, which the device serves from
  the bank of that address: 16 bytes from \<^verbatim>\<open>0xFFF0\<close> on, then 14 from the start of the
  same bank, which hold 0. The chunk compares unequal and is written again, in two
  transactions, although every byte of the region already had its value; the result is
  35. (\<^verbatim>\<open>readBlock\<close> splits such a request at \<^verbatim>\<open>0x10000\<close>; \<^verbatim>\<open>updateBlock\<close>
  reads through \<^verbatim>\<open>_ReadBlock\<close> without the split.)
\<close>

theorem updateBlock_rewrites_across_banks:
  "list_all (\<lambda>i. image7 (0xFFF0 + of_nat i) = 7) [0..<35] \<and>
   (\<exists>s'. updateBlock 0xFFF0 (\<lambda>_. 7) 35 (\<lambda>_. 0)
            (bench (\<lambda>_. 0) (\<lambda>k. if k = 0 then [7, 7, 7, 7, 7, 7, 7, 7, 7, 7, 7, 7, 7, 7, 7, 7, 0, 0, 0, 0, 0, 0, 0, 0, 0, 0, 0, 0, 0, 0] else [7, 7, 7, 7, 7]))
          = Some (35, s') \<and>
      list_all (read_banked image7)
        (emitted (bench (\<lambda>_. 0) (\<lambda>k. if k = 0 then [7, 7, 7, 7, 7, 7, 7, 7, 7, 7, 7, 7, 7, 7, 7, 7, 0, 0, 0, 0, 0, 0, 0, 0, 0, 0, 0, 0, 0, 0] else [7, 7, 7, 7, 7])) s') \<and>
      filter (\<lambda>e. \<not> is_poll e)
        (emitted (bench (\<lambda>_. 0) (\<lambda>k. if k = 0 then [7, 7, 7, 7, 7, 7, 7, 7, 7, 7, 7, 7, 7, 7, 7, 7, 0, 0, 0, 0, 0, 0, 0, 0, 0, 0, 0, 0, 0, 0] else [7, 7, 7, 7, 7])) s') =
        [Select 0xFFF0 0x50 [0xFF, 0xF0] 0,
         Request 0xFFF0 0x50 30 ([7, 7, 7, 7, 7, 7, 7, 7, 7, 7, 7, 7, 7, 7, 7, 7, 0, 0, 0, 0, 0, 0, 0, 0, 0, 0, 0, 0, 0, 0]),
         Write 0xFFF0 0x50 [0xFF, 0xF0, 7, 7, 7, 7, 7, 7, 7, 7, 7, 7, 7, 7, 7, 7, 7, 7] 0,
         Write 0x10000 0x54 [0, 0, 7, 7, 7, 7, 7, 7, 7, 7, 7, 7, 7, 7, 7, 7] 0,
         Select 0x1000E 0x54 [0, 0x0E] 0,
         Request 0x1000E 0x54 5 ([7, 7, 7, 7, 7])])"
proof -
  let ?s = "bench (\<lambda>_. 0) (\<lambda>k. if k = 0 then [7, 7, 7, 7, 7, 7, 7, 7, 7, 7, 7, 7, 7, 7, 7, 7, 0, 0, 0, 0, 0, 0, 0, 0, 0, 0, 0, 0, 0, 0] else [7, 7, 7, 7, 7])"
  have region: "list_all (\<lambda>i. image7 (0xFFF0 + of_nat i) = 7) [0..<35]"
    by (simp add: image7_def upt_rec)
  from bench_updateBlock_straddle obtain s' where
    run: "updateBlock 0xFFF0 (\<lambda>_. 7) 35 (\<lambda>_. 0) ?s = Some (35, s')" and
    ev: "emitted ?s s' =
       [Probe 0x50 0, Probe 0x50 0, Select 0xFFF0 0x50 [0xFF, 0xF0] 0,
        Request 0xFFF0 0x50 30 ([7, 7, 7, 7, 7, 7, 7, 7, 7, 7, 7, 7, 7, 7, 7, 7, 0, 0, 0, 0, 0, 0, 0, 0, 0, 0, 0, 0, 0, 0]),
        Probe 0x50 0, Probe 0x50 0, Write 0xFFF0 0x50 [0xFF, 0xF0, 7, 7, 7, 7, 7, 7, 7, 7, 7, 7, 7, 7, 7, 7, 7, 7] 0,
        Probe 0x50 0, Probe 0x54 0, Write 0x10000 0x54 [0, 0, 7, 7, 7, 7, 7, 7, 7, 7, 7, 7, 7, 7, 7, 7] 0,
        Probe 0x50 0, Probe 0x54 0, Select 0x1000E 0x54 [0, 0x0E] 0,
        Request 0x1000E 0x54 5 ([7, 7, 7, 7, 7])]"
    by blast
  have banked: "list_all (read_banked image7) (emitted ?s s')"
    unfolding ev by (simp add: image7_def bank_address_def upt_rec word_le_nat_alt word_less_nat_alt)
  have "filter (\<lambda>e. \<not> is_poll e) (emitted ?s s') =
        [Select 0xFFF0 0x50 [0xFF, 0xF0] 0,
         Request 0xFFF0 0x50 30 ([7, 7, 7, 7, 7, 7, 7, 7, 7, 7, 7, 7, 7, 7, 7, 7, 0, 0, 0, 0, 0, 0, 0, 0, 0, 0, 0, 0, 0, 0]),
         Write 0xFFF0 0x50 [0xFF, 0xF0, 7, 7, 7, 7, 7, 7, 7, 7, 7, 7, 7, 7, 7, 7, 7, 7] 0,
         Write 0x10000 0x54 [0, 0, 7, 7, 7, 7, 7, 7, 7, 7, 7, 7, 7, 7, 7, 7] 0,
         Select 0x1000E 0x54 [0, 0x0E] 0,
         Request 0x1000E 0x54 5 ([7, 7, 7, 7, 7])]"
    unfolding ev by simp
  with region run banked show ?thesis by blast
qed

text \<open>
  Claim C10. The result of \<^verbatim>\<open>updateBlock\<close> is the number of bytes that the reads of
  its compare phase received, whatever was written: the call returns (given a clock that
  leaves every wait) the sum of the bytes received by its requests; when every address
  transaction succeeded and every request received all it asked for, that is the length
  \<open>n\<close>. \<^verbatim>\<open>updateBlockVerify\<close> goes by that count: when it differs from \<open>n\<close> the answer
  is false and nothing follows the update; when it equals \<open>n\<close> the block is read back
  and the answer is true exactly when the read delivered \<open>n\<close> bytes and each equals the
  byte of the buffer at its index.
\<close>

theorem updateBlock_counts_reads:
  assumes "clock_live s" "0 < pageSize s" "pageSize s < 256"
  shows "\<exists>rv s'. updateBlock a buf n stack s = Some (rv, s') \<and>
           rv = of_nat (received (emitted s s')) \<and>
           (list_all read_complete (emitted s s') \<longrightarrow> rv = n) \<and>
           (rv \<noteq> n \<longrightarrow> updateBlockVerify a buf n stack stack' s = Some (False, s')) \<and>
           (rv = n \<longrightarrow> (\<exists>k data s''. readBlock a stack' 0 n s' = Some (k, data, s'') \<and>
              updateBlockVerify a buf n stack stack' s =
                Some (k = n \<and> (\<forall>i<unat n. data i = buf i), s'')))"
proof -
  from updateBlock_loop_terminates[OF assms(1-3)] obtain rv s' where
    run: "updateBlock_loop a buf n 0 stack s = Some (rv, s')" by blast
  from updateBlock_loop_run[OF run assms(2,3), of "\<lambda>_. 0"] obtain evs where
    cfg: "same_config s s'" and
    evs: "log s' = log s @ evs" "rv = 0 + of_nat (received evs)"
    "list_all read_complete evs \<longrightarrow> received evs = unat n"
    by blast
  have e: "emitted s s' = evs" using evs(1) by (rule emittedI)
  have 1: "rv = of_nat (received (emitted s s'))" using evs(2) by (simp add: e)
  have 2: "list_all read_complete (emitted s s') \<longrightarrow> rv = n"
    using evs(2,3) by (auto simp: e)
  have 3: "rv \<noteq> n \<longrightarrow> updateBlockVerify a buf n stack stack' s = Some (False, s')"
    using run by (simp add: updateBlockVerify_def updateBlock_def)
  from cfg assms(1) have "clock_live s'" by (rule same_config_live)
  from readBlock_terminates[OF this] obtain k data s'' where
    r: "readBlock a stack' 0 n s' = Some (k, data, s'')" by blast
  have "updateBlockVerify a buf n stack stack' s =
      Some (k = n \<and> (\<forall>i<unat n. data i = buf i), s'')" if "rv = n"
    using run r that by (simp add: updateBlockVerify_def updateBlock_def memcmp_eq_0)
  with r have 4: "rv = n \<longrightarrow> (\<exists>k data s''. readBlock a stack' 0 n s' = Some (k, data, s'') \<and>
              updateBlockVerify a buf n stack stack' s =
                Some (k = n \<and> (\<forall>i<unat n. data i = buf i), s''))"
    by blast
  from run 1 2 3 4 show ?thesis
    unfolding updateBlock_def by blast
qed

theorem updateBlock_counts_reads_witness:
  "clock_live (bench (\<lambda>_. 0) (\<lambda>k. if k = 0 then [9] else [7])) \<and>
   0 < pageSize (bench (\<lambda>_. 0) (\<lambda>k. if k = 0 then [9] else [7])) \<and>
   pageSize (bench (\<lambda>_. 0) (\<lambda>k. if k = 0 then [9] else [7])) < 256 \<and>
   (\<exists>s'. updateBlock 0x100 (\<lambda>_. 7) 1 (\<lambda>_. 0) (bench (\<lambda>_. 0) (\<lambda>k. if k = 0 then [9] else [7])) = Some (1, s') \<and>
      list_all read_complete (emitted (bench (\<lambda>_. 0) (\<lambda>k. if k = 0 then [9] else [7])) s') \<and>
      received (emitted (bench (\<lambda>_. 0) (\<lambda>k. if k = 0 then [9] else [7])) s') = 1 \<and>
      write_statuses (emitted (bench (\<lambda>_. 0) (\<lambda>k. if k = 0 then [9] else [7])) s') = [0]) \<and>
   (\<exists>s''. updateBlockVerify 0x100 (\<lambda>_. 7) 1 (\<lambda>_. 0) (\<lambda>_. 0)
            (bench (\<lambda>_. 0) (\<lambda>k. if k = 0 then [9] else [7])) = Some (True, s'') \<and>
      emitted (bench (\<lambda>_. 0) (\<lambda>k. if k = 0 then [9] else [7])) s'' =
        [Probe 0x50 0, Probe 0x50 0, Select 0x100 0x50 [1, 0] 0, Request 0x100 0x50 1 [9],
         Probe 0x50 0, Probe 0x50 0, Write 0x100 0x50 [1, 0, 7] 0,
         Probe 0x50 0, Probe 0x50 0, Select 0x100 0x50 [1, 0] 0, Request 0x100 0x50 1 [7]])"
proof -
  let ?s = "bench (\<lambda>_. 0) (\<lambda>k. if k = 0 then [9] else [7])"
  have live: "clock_live ?s" by (rule clock_live_bench)
  have ps: "0 < pageSize ?s" "pageSize ?s < 256" by (simp_all add: bench_def)
  from updateBlock_counts_reads[OF live ps, of "0x100" "\<lambda>_. 7" 1 "\<lambda>_. 0" "\<lambda>_. 0"]
  obtain rv s' where run: "updateBlock 0x100 (\<lambda>_. 7) 1 (\<lambda>_. 0) ?s = Some (rv, s')"
    and imp: "list_all read_complete (emitted ?s s') \<longrightarrow> rv = 1"
    and ver: "rv = 1 \<longrightarrow> (\<exists>k data s''. readBlock 0x100 (\<lambda>_. 0) 0 1 s' = Some (k, data, s'') \<and>
              updateBlockVerify 0x100 (\<lambda>_. 7) 1 (\<lambda>_. 0) (\<lambda>_. 0) ?s =
                Some (k = 1 \<and> (\<forall>i<unat (1 :: 32 word). data i = 7), s''))"
    by blast
  from bench_updateBlock_rewrite run have ev: "emitted ?s s' =
       [Probe 0x50 0, Probe 0x50 0, Select 0x100 0x50 [1, 0] 0, Request 0x100 0x50 1 [9],
        Probe 0x50 0, Probe 0x50 0, Write 0x100 0x50 [1, 0, 7] 0]"
    by auto
  have rc: "list_all read_complete (emitted ?s s')" "received (emitted ?s s') = 1"
    "write_statuses (emitted ?s s') = [0]"
    by (simp_all add: ev)
  with imp have rv: "rv = 1" by simp
  with ver obtain b s'' where v: "updateBlockVerify 0x100 (\<lambda>_. 7) 1 (\<lambda>_. 0) (\<lambda>_. 0) ?s = Some (b, s'')"
    by blast
  from bench_updateBlockVerify_true v have "b = True"
    and "emitted ?s s'' =
        [Probe 0x50 0, Probe 0x50 0, Select 0x100 0x50 [1, 0] 0, Request 0x100 0x50 1 [9],
         Probe 0x50 0, Probe 0x50 0, Write 0x100 0x50 [1, 0, 7] 0,
         Probe 0x50 0, Probe 0x50 0, Select 0x100 0x50 [1, 0] 0, Request 0x100 0x50 1 [7]]"
    by auto
  with live ps run rv rc v show ?thesis by blast
qed

text \<open>
  Claim C9, at a write that fails inside \<^verbatim>\<open>updateBlock\<close>: one byte is to be updated,
  the byte read differs, and the write transaction reports status 2. The result is 1, the
  requested length, as it is when the same write reports status 0: the status that
  \<^verbatim>\<open>_pageBlock\<close> returned is dropped.
\<close>

theorem updateBlock_drops_write_status:
  "(\<exists>s'. updateBlock 0x100 (\<lambda>_. 7) 1 (\<lambda>_. 0) (bench (\<lambda>k. if k = 5 then 2 else 0) (\<lambda>_. [9])) = Some (1, s') \<and>
      write_statuses (emitted (bench (\<lambda>k. if k = 5 then 2 else 0) (\<lambda>_. [9])) s') = [2]) \<and>
   (\<exists>s'. updateBlock 0x100 (\<lambda>_. 7) 1 (\<lambda>_. 0) (bench (\<lambda>_. 0) (\<lambda>_. [9])) = Some (1, s') \<and>
      write_statuses (emitted (bench (\<lambda>_. 0) (\<lambda>_. [9])) s') = [0])"
proof
  from bench_updateBlock_fail
  show "\<exists>s'. updateBlock 0x100 (\<lambda>_. 7) 1 (\<lambda>_. 0) (bench (\<lambda>k. if k = 5 then 2 else 0) (\<lambda>_. [9])) = Some (1, s') \<and>
      write_statuses (emitted (bench (\<lambda>k. if k = 5 then 2 else 0) (\<lambda>_. [9])) s') = [2]"
    by auto
  from bench_updateBlock_ok
  show "\<exists>s'. updateBlock 0x100 (\<lambda>_. 7) 1 (\<lambda>_. 0) (bench (\<lambda>_. 0) (\<lambda>_. [9])) = Some (1, s') \<and>
      write_statuses (emitted (bench (\<lambda>_. 0) (\<lambda>_. [9])) s') = [0]"
    by auto
qed

end
